theory Spec2Isabelle
  imports Complex_Main "HOL-Library.AList" "HOL-Library.Sublist"
begin

section \<open>Repository tree crawler and analysis sessions (server/routes/github.js)\<close>

text \<open>
  A shallow embedding of \<^verbatim>\<open>buildFileTreeWithCancellation\<close>, of the session table
  \<^verbatim>\<open>activeAnalyses\<close> and of the routes \<^verbatim>\<open>/analyze\<close> and \<^verbatim>\<open>/analyze/cancel\<close>.
  JavaScript strings are modelled as \<open>string\<close>, non-negative integers as \<open>nat\<close>, a field
  that may be \<^verbatim>\<open>undefined\<close> as an \<open>option\<close>, a thrown \<^verbatim>\<open>Error(msg)\<close> as \<open>Inl msg\<close>,
  and the insertion-ordered \<^verbatim>\<open>Map\<close> as an association list with unique keys.
\<close>

subsection \<open>Data\<close>

text \<open>One element of the array the upstream contents API returns for a directory.\<close>

record item =
  item_name :: string
  item_type :: string
  item_path :: string
  item_size :: "nat option"
  item_download_url :: "string option"

text \<open>
  The objects the crawler builds. A folder carries \<^verbatim>\<open>name\<close>, \<^verbatim>\<open>path\<close> (absent on the
  object a call returns), \<^verbatim>\<open>children\<close>, \<^verbatim>\<open>depth\<close> (absent on the truncated object),
  \<^verbatim>\<open>truncated\<close> and \<^verbatim>\<open>message\<close>; a file carries \<^verbatim>\<open>name\<close>, \<^verbatim>\<open>path\<close>,
  \<^verbatim>\<open>download_url\<close>, \<^verbatim>\<open>size\<close> and \<^verbatim>\<open>depth\<close>.
\<close>

datatype node =
  Folder string "string option" "node list" "nat option" "bool option" "string option"
| File string string "string option" "nat option" nat

fun node_name :: "node \<Rightarrow> string" where
  "node_name (Folder n p cs d t m) = n"
| "node_name (File n p u s d) = n"


fun node_depth :: "node \<Rightarrow> nat option" where
  "node_depth (Folder n p cs d t m) = d"
| "node_depth (File n p u s d) = Some d"

fun node_children :: "node \<Rightarrow> node list" where
  "node_children (Folder n p cs d t m) = cs"
| "node_children (File n p u s d) = []"

fun node_truncated :: "node \<Rightarrow> bool option" where
  "node_truncated (Folder n p cs d t m) = t"
| "node_truncated (File n p u s d) = None"

fun node_message :: "node \<Rightarrow> string option" where
  "node_message (Folder n p cs d t m) = m"
| "node_message (File n p u s d) = None"

fun is_file :: "node \<Rightarrow> bool" where
  "is_file (Folder n p cs d t m) = False"
| "is_file (File n p u s d) = True"

fun file_size :: "node \<Rightarrow> nat option" where
  "file_size (Folder n p cs d t m) = None"
| "file_size (File n p u s d) = s"

text \<open>Every node strictly below a node, in document order.\<close>

fun descendants :: "node \<Rightarrow> node list" where
  "descendants (Folder n p cs d t m) = concat (map (\<lambda>c. c # descendants c) cs)"
| "descendants (File n p u s d) = []"

definition nodes :: "node \<Rightarrow> node list" where
  "nodes t = t # descendants t"

text \<open>A value of the session table: \<^verbatim>\<open>{ cancelled, progress, currentDepth, currentPath }\<close>.\<close>

record session =
  cancelled :: "bool option"
  progress :: "nat option"
  currentDepth :: "nat option"
  currentPath :: "string option"

type_synonym registry = "(string \<times> session) list"

text \<open>
  The state the routes share: the session table, and the records stored by
  \<^verbatim>\<open>Repository.create\<close>. Two further fields only observe the run and are never read by the
  code: \<open>fetched\<close> lists the directory-listing requests issued so far as (owner, repo,
  path), and \<open>progressLog\<close> lists what the crawler wrote to a session as (session id,
  \<^verbatim>\<open>currentDepth\<close>, \<^verbatim>\<open>progress\<close>), both in order of time. The number of requests issued
  is the clock by which the outside world schedules its cancel requests.
\<close>

record world =
  activeAnalyses :: registry
  saved :: "(string \<times> string \<times> node) list"
  fetched :: "(string \<times> string \<times> string) list"
  progressLog :: "(string \<times> nat \<times> nat) list"

text \<open>
  What lies outside the process: \<open>listing owner repo path\<close> is the outcome of the GET on
  \<^verbatim>\<open>/repos/owner/repo/contents/path\<close>: the array of the response, or the message of the
  error thrown when the request is rejected or the body cannot be iterated.
  \<open>cancelRequests k\<close> lists the caller identities whose \<^verbatim>\<open>/analyze/cancel\<close> requests are
  served, in this order, while the listing request number \<open>k\<close> (counted from 0 over the
  whole state) is in flight; the crawl yields to other requests only there.
  \<open>createError\<close> is the message \<^verbatim>\<open>Repository.create\<close> rejects with, if it does.
\<close>

record env =
  listing :: "string \<Rightarrow> string \<Rightarrow> string \<Rightarrow> string + item list"
  cancelRequests :: "nat \<Rightarrow> string list"
  createError :: "string option"

subsection \<open>Decimal rendering\<close>

text \<open>
  The template literals render numbers in decimal. \<open>digit\<close> is applied to numbers below
  ten only.
\<close>

definition digit :: "nat \<Rightarrow> char" where
  "digit d = ''0123456789'' ! d"

function dec :: "nat \<Rightarrow> string" where
  "dec n = (if n < 10 then [digit n] else dec (n div 10) @ [digit (n mod 10)])"
  by pat_completeness auto
termination
  by (relation "measure id") auto

declare dec.simps [simp del]

subsection \<open>parseGitHubUrl\<close>

text \<open>
  The regular expression \<^verbatim>\<open>/github\.com\/([^\/]+)\/([^\/]+)/\<close>: at the leftmost position
  where it matches, the literal is followed by a maximal non-empty run without a slash, a
  slash, and a second maximal non-empty run.
\<close>

definition match_at :: "string \<Rightarrow> (string \<times> string) option" where
  "match_at s =
     (if prefix ''github.com/'' s then
        (let r = drop 11 s;
             owner = takeWhile (\<lambda>c. c \<noteq> CHR ''/'') r;
             r' = dropWhile (\<lambda>c. c \<noteq> CHR ''/'') r
         in if owner = [] \<or> r' = [] then None
            else (let repo = takeWhile (\<lambda>c. c \<noteq> CHR ''/'') (tl r')
                  in if repo = [] then None else Some (owner, repo)))
      else None)"

fun parseGitHubUrl :: "string \<Rightarrow> (string \<times> string) option" where
  "parseGitHubUrl [] = None"
| "parseGitHubUrl (c # cs) =
     (case match_at (c # cs) of Some r \<Rightarrow> Some r | None \<Rightarrow> parseGitHubUrl cs)"

subsection \<open>The skip patterns\<close>

definition skipPatterns :: "string list" where
  "skipPatterns =
     [''node_modules'', ''.git'', ''dist'', ''build'', ''.next'', ''.nuxt'',
      ''coverage'', ''.nyc_output'', ''.cache'', ''.parcel-cache'',
      ''*.log'', ''*.lock'', ''*.min.js'', ''*.min.css'', ''*.map'']"

text \<open>\<^verbatim>\<open>pattern.replace('*', '.*')\<close> replaces the first star only.\<close>

fun replace_star :: "string \<Rightarrow> string" where
  "replace_star [] = []"
| "replace_star (c # cs) = (if c = CHR ''*'' then ''.*'' @ cs else c # replace_star cs)"

text \<open>
  The patterns of the list carry a star at the front only, so the regular expressions that
  arise are sequences of \<^verbatim>\<open>.*\<close>, \<^verbatim>\<open>.\<close> and literal characters: the dots of the pattern
  are not escaped. A dot matches any character but a line terminator, and \<^verbatim>\<open>test\<close>
  looks for a match starting anywhere in the name, since the expression is not anchored.
\<close>

datatype atom = AnyStar | AnyChar | Lit char

fun compile :: "string \<Rightarrow> atom list" where
  "compile [] = []"
| "compile [c] = [if c = CHR ''.'' then AnyChar else Lit c]"
| "compile (c # c' # cs) =
     (if c = CHR ''.'' \<and> c' = CHR ''*'' then AnyStar # compile cs
      else (if c = CHR ''.'' then AnyChar else Lit c) # compile (c' # cs))"

definition line_terminator :: "char \<Rightarrow> bool" where
  "line_terminator c = (c = CHR 0x0A \<or> c = CHR 0x0D)"

fun match_here :: "atom list \<Rightarrow> string \<Rightarrow> bool" where
  "match_here [] s = True"
| "match_here (AnyStar # as) [] = match_here as []"
| "match_here (AnyStar # as) (c # cs) =
     (match_here as (c # cs) \<or> (\<not> line_terminator c \<and> match_here (AnyStar # as) cs))"
| "match_here (AnyChar # as) [] = False"
| "match_here (AnyChar # as) (c # cs) = (\<not> line_terminator c \<and> match_here as cs)"
| "match_here (Lit x # as) [] = False"
| "match_here (Lit x # as) (c # cs) = (x = c \<and> match_here as cs)"

fun regex_test :: "atom list \<Rightarrow> string \<Rightarrow> bool" where
  "regex_test as [] = match_here as []"
| "regex_test as (c # cs) = (match_here as (c # cs) \<or> regex_test as cs)"

definition matches_pattern :: "string \<Rightarrow> string \<Rightarrow> bool" where
  "matches_pattern nm pattern =
     (if CHR ''*'' \<in> set pattern then regex_test (compile (replace_star pattern)) nm
      else nm = pattern)"

definition shouldSkip :: "string \<Rightarrow> bool" where
  "shouldSkip nm = list_ex (matches_pattern nm) skipPatterns"

subsection \<open>The session table\<close>

text \<open>
  \<^verbatim>\<open>analysisId && activeAnalyses.get(analysisId)?.cancelled\<close>: a \<^verbatim>\<open>null\<close> or empty id
  is falsy, and so is a missing entry or a flag that is not \<^verbatim>\<open>true\<close>.
\<close>

definition sessionCancelled :: "string \<Rightarrow> registry \<Rightarrow> bool" where
  "sessionCancelled i reg =
     (case map_of reg i of None \<Rightarrow> False | Some s \<Rightarrow> cancelled s = Some True)"

definition isCancelled :: "string option \<Rightarrow> registry \<Rightarrow> bool" where
  "isCancelled aid reg =
     (case aid of None \<Rightarrow> False | Some i \<Rightarrow> i \<noteq> [] \<and> sessionCancelled i reg)"

text \<open>
  JavaScript numbers are doubles. A quotient or product is the exact result rounded to 53
  significant bits, to the nearest such number and to the even one on a tie: \<open>expo\<close> is
  the binary exponent of a positive real, \<open>ulp\<close> the spacing of the doubles around it,
  \<open>rne\<close> rounds to the nearest integer with ties to even, and \<open>fl\<close> is the rounding. The
  limits of the exponent's range are not modelled; the operands here are positive integers
  that doubles hold exactly (below \<open>2 ^ 53\<close>) and 100.
\<close>

definition rne :: "real \<Rightarrow> int" where
  "rne x =
     (let f = \<lfloor>x\<rfloor> in
      if x - of_int f < 1 / 2 then f
      else if 1 / 2 < x - of_int f then f + 1
      else if even f then f else f + 1)"

definition expo :: "real \<Rightarrow> int" where
  "expo x = \<lfloor>log 2 x\<rfloor>"

definition ulp :: "real \<Rightarrow> real" where
  "ulp x = 2 powr (of_int (expo x) - 52)"

definition fl :: "real \<Rightarrow> real" where
  "fl x = (if x \<le> 0 then 0 else of_int (rne (x / ulp x)) * ulp x)"

text \<open>
  \<^verbatim>\<open>Math.round(Math.min((depth / maxDepth) * 100, 100))\<close>. The division and the
  multiplication round to doubles; \<^verbatim>\<open>Math.min\<close> is exact, and \<^verbatim>\<open>Math.round\<close> gives the
  nearest integer of its argument, a half going upwards, as \<open>round\<close> does. The call site
  guarantees \<open>depth > 0\<close>, so a zero \<open>maxDepth\<close> makes the quotient \<^verbatim>\<open>Infinity\<close> and the
  minimum 100.
\<close>

definition progressOf :: "nat \<Rightarrow> nat \<Rightarrow> nat" where
  "progressOf depth maxDepth =
     (if maxDepth = 0 then 100
      else nat (round (min (fl (fl (real depth / real maxDepth) * 100)) 100)))"

definition emptySession :: session where
  "emptySession = \<lparr>cancelled = None, progress = None, currentDepth = None, currentPath = None\<rparr>"

text \<open>
  \<^verbatim>\<open>activeAnalyses.set(analysisId, { ...activeAnalyses.get(analysisId), progress,
  currentDepth, currentPath })\<close>: the spread of a missing entry contributes nothing.
\<close>

definition updateProgress :: "string \<Rightarrow> nat \<Rightarrow> nat \<Rightarrow> string \<Rightarrow> world \<Rightarrow> world" where
  "updateProgress i depth maxDepth path w =
     (let old = (case map_of (activeAnalyses w) i of None \<Rightarrow> emptySession | Some s \<Rightarrow> s);
          p = progressOf depth maxDepth
      in w\<lparr>activeAnalyses :=
             AList.update i
               (old\<lparr>progress := Some p, currentDepth := Some depth, currentPath := Some path\<rparr>)
               (activeAnalyses w),
           progressLog := progressLog w @ [(i, depth, p)]\<rparr>)"

text \<open>The guard \<^verbatim>\<open>if (analysisId && depth > 0)\<close> around the update.\<close>

definition recordProgress :: "string option \<Rightarrow> nat \<Rightarrow> nat \<Rightarrow> string \<Rightarrow> world \<Rightarrow> world" where
  "recordProgress aid depth maxDepth path w =
     (case aid of
        None \<Rightarrow> w
      | Some i \<Rightarrow> if i \<noteq> [] \<and> depth > 0 then updateProgress i depth maxDepth path w else w)"

text \<open>
  The loop of \<^verbatim>\<open>/analyze/cancel\<close>: every entry whose key starts with the caller's id
  gets \<^verbatim>\<open>cancelled = true\<close>.
\<close>

definition markCancelled :: "string \<Rightarrow> registry \<Rightarrow> registry" where
  "markCancelled uid reg =
     map (\<lambda>(id, analysis).
            if prefix uid id then (id, analysis\<lparr>cancelled := Some True\<rparr>) else (id, analysis))
         reg"

text \<open>The session id \<^verbatim>\<open>`${req.user.id}-${Date.now()}`\<close>.\<close>

definition analysisIdOf :: "string \<Rightarrow> nat \<Rightarrow> string" where
  "analysisIdOf uid now = uid @ ''-'' @ dec now"

subsection \<open>The crawl\<close>

text \<open>
  \<^verbatim>\<open>await axios.get(...)\<close>: the request is logged, the cancel requests that arrive while it
  is in flight are served, and the call resumes with the upstream's answer.
\<close>

definition fetch :: "env \<Rightarrow> string \<Rightarrow> string \<Rightarrow> string \<Rightarrow> world \<Rightarrow> (string + item list) \<times> world" where
  "fetch E owner repo path w =
     (listing E owner repo path,
      w\<lparr>activeAnalyses :=
           foldl (\<lambda>reg uid. markCancelled uid reg) (activeAnalyses w)
             (cancelRequests E (length (fetched w))),
        fetched := fetched w @ [(owner, repo, path)]\<rparr>)"

definition cancelledMessage :: string where
  "cancelledMessage = ''Analysis cancelled by user''"

text \<open>The \<^verbatim>\<open>catch\<close> of the crawler rethrows with a prefix, once per level.\<close>

definition wrapError :: "string \<Rightarrow> string" where
  "wrapError e = ''GitHub API error: '' @ e"

definition truncatedMessage :: "nat \<Rightarrow> string" where
  "truncatedMessage maxDepth = ''Maximum depth ('' @ dec maxDepth @ '') reached''"

text \<open>\<^verbatim>\<open>path || repo\<close>.\<close>

definition treeName :: "string \<Rightarrow> string \<Rightarrow> string" where
  "treeName path repo = (if path = [] then repo else path)"

definition sizeLimit :: nat where
  "sizeLimit = 1024 * 1024"

text \<open>\<^verbatim>\<open>item.size && item.size < 1024 * 1024\<close>: a missing or zero size is falsy.\<close>

definition sizeOk :: "nat option \<Rightarrow> bool" where
  "sizeOk s = (case s of None \<Rightarrow> False | Some n \<Rightarrow> n \<noteq> 0 \<and> n < sizeLimit)"

text \<open>The object pushed for a directory, from the subtree its recursive call returned.\<close>

definition folderChild :: "item \<Rightarrow> nat \<Rightarrow> node \<Rightarrow> node" where
  "folderChild it depth subTree =
     Folder (item_name it) (Some (item_path it)) (node_children subTree) (Some (depth + 1))
       (node_truncated subTree) (node_message subTree)"

text \<open>The object pushed for a file.\<close>

definition fileChild :: "item \<Rightarrow> nat \<Rightarrow> node" where
  "fileChild it depth =
     File (item_name it) (item_path it) (item_download_url it) (item_size it) depth"

text \<open>
  \<^verbatim>\<open>buildFileTreeWithCancellation\<close> and its \<^verbatim>\<open>for (const item of items)\<close> loop. The
  loop carries \<^verbatim>\<open>tree.children\<close> as \<open>cs\<close>. An error thrown inside the loop reaches the
  \<^verbatim>\<open>catch\<close> of the enclosing call, which prefixes it.
\<close>

function buildFileTreeWithCancellation ::
    "env \<Rightarrow> string \<Rightarrow> string \<Rightarrow> string \<Rightarrow> string option \<Rightarrow> nat \<Rightarrow> nat \<Rightarrow> world
       \<Rightarrow> (string + node) \<times> world"
  and forItems ::
    "env \<Rightarrow> string \<Rightarrow> string \<Rightarrow> string option \<Rightarrow> nat \<Rightarrow> nat \<Rightarrow> item list \<Rightarrow> node list \<Rightarrow> world
       \<Rightarrow> (string + node list) \<times> world"
where
  "buildFileTreeWithCancellation E owner repo path aid depth maxDepth w =
     (if isCancelled aid (activeAnalyses w) then (Inl (wrapError cancelledMessage), w)
      else
        let w1 = recordProgress aid depth maxDepth path w in
        if depth > maxDepth then
          (Inr (Folder (treeName path repo) None [] None (Some True)
                  (Some (truncatedMessage maxDepth))), w1)
        else
          (case fetch E owner repo path w1 of
             (Inl e, w2) \<Rightarrow> (Inl (wrapError e), w2)
           | (Inr items, w2) \<Rightarrow>
               (case forItems E owner repo aid depth maxDepth items [] w2 of
                  (Inl e, w3) \<Rightarrow> (Inl (wrapError e), w3)
                | (Inr cs, w3) \<Rightarrow>
                    (Inr (Folder (treeName path repo) None cs (Some depth) None None), w3))))"
| "forItems E owner repo aid depth maxDepth [] cs w = (Inr cs, w)"
| "forItems E owner repo aid depth maxDepth (it # rest) cs w =
     (if isCancelled aid (activeAnalyses w) then (Inl cancelledMessage, w)
      else if shouldSkip (item_name it) then forItems E owner repo aid depth maxDepth rest cs w
      else if item_type it = ''dir'' then
        (case buildFileTreeWithCancellation E owner repo (item_path it) aid (depth + 1) maxDepth w of
           (Inl e, w') \<Rightarrow> (Inl e, w')
         | (Inr subTree, w') \<Rightarrow>
             forItems E owner repo aid depth maxDepth rest (cs @ [folderChild it depth subTree]) w')
      else if sizeOk (item_size it) then
        forItems E owner repo aid depth maxDepth rest (cs @ [fileChild it depth]) w
      else forItems E owner repo aid depth maxDepth rest cs w)"
  by pat_completeness auto
termination
  by (relation "inv_image (less_than <*lex*> less_than)
        (\<lambda>x. case x of
           Inl (E, owner, repo, path, aid, depth, maxDepth, w) \<Rightarrow>
             (if depth > maxDepth then 0 else 2 * (maxDepth - depth) + 2, 0)
         | Inr (E, owner, repo, aid, depth, maxDepth, items, cs, w) \<Rightarrow>
             (if depth > maxDepth then 1 else 2 * (maxDepth - depth) + 1, length items))")
     auto

declare buildFileTreeWithCancellation.simps [simp del]

subsection \<open>The routes\<close>

text \<open>
  A response is its status code and its JSON body: \<^verbatim>\<open>{ message }\<close>, the body of a
  successful analysis (\<^verbatim>\<open>message\<close>, \<^verbatim>\<open>repoInfo.owner\<close>, \<^verbatim>\<open>repoInfo.repo\<close>,
  \<^verbatim>\<open>fileTree\<close>, \<^verbatim>\<open>analysisConfig.maxDepth\<close>), or \<^verbatim>\<open>{ message, error }\<close>.
\<close>

datatype body =
  Message string
| Analyzed string string string node nat
| Failure string string

type_synonym response = "nat \<times> body"

text \<open>
  \<^verbatim>\<open>Math.min(Math.max(parseInt(maxDepth) || 15, 1), 20)\<close>. The argument is the value of
  \<^verbatim>\<open>parseInt(maxDepth)\<close>, \<open>None\<close> for \<^verbatim>\<open>NaN\<close>; a missing field defaults to 15 before.
\<close>

definition clampDepth :: "int option \<Rightarrow> nat" where
  "clampDepth p =
     nat (min (max (case p of None \<Rightarrow> 15 | Some n \<Rightarrow> if n = 0 then 15 else n) 1) 20)"

text \<open>\<^verbatim>\<open>Repository.create\<close>: the record is stored, or the call rejects.\<close>

definition Repository_create ::
    "env \<Rightarrow> string \<Rightarrow> string \<Rightarrow> node \<Rightarrow> world \<Rightarrow> (string + unit) \<times> world" where
  "Repository_create E userId repoUrl repoData w =
     (case createError E of
        Some e \<Rightarrow> (Inl e, w)
      | None \<Rightarrow> (Inr (), w\<lparr>saved := saved w @ [(userId, repoUrl, repoData)]\<rparr>))"

definition newSession :: session where
  "newSession = \<lparr>cancelled = Some False, progress = Some 0, currentDepth = None, currentPath = None\<rparr>"

text \<open>
  \<^verbatim>\<open>router.post('/analyze')\<close> for the caller \<open>uid\<close> at time \<open>now\<close>. \<open>repoUrl\<close> is the
  body's field, a string when present. Whatever is thrown inside the \<^verbatim>\<open>try\<close> ends in the
  \<^verbatim>\<open>catch\<close>, which answers 500.
\<close>

definition analyze ::
    "env \<Rightarrow> string \<Rightarrow> nat \<Rightarrow> string option \<Rightarrow> int option \<Rightarrow> world \<Rightarrow> response \<times> world" where
  "analyze E uid now repoUrl maxDepthParam w =
     (case repoUrl of
        None \<Rightarrow> ((400, Message ''Repository URL is required''), w)
      | Some url \<Rightarrow>
          if url = [] then ((400, Message ''Repository URL is required''), w)
          else
            let depth = clampDepth maxDepthParam in
            (case parseGitHubUrl url of
               None \<Rightarrow> ((400, Message ''Invalid GitHub URL''), w)
             | Some (owner, repo) \<Rightarrow>
                 let analysisId = analysisIdOf uid now;
                     w1 = w\<lparr>activeAnalyses :=
                             AList.update analysisId newSession (activeAnalyses w)\<rparr>
                 in
                 (case buildFileTreeWithCancellation E owner repo [] (Some analysisId) 0 depth w1 of
                    (Inl e, w2) \<Rightarrow> ((500, Failure ''Failed to analyze repository'' e), w2)
                  | (Inr fileTree, w2) \<Rightarrow>
                      let w3 = w2\<lparr>activeAnalyses :=
                                   AList.delete analysisId (activeAnalyses w2)\<rparr>
                      in
                      if sessionCancelled analysisId (activeAnalyses w3) then
                        ((499, Message ''Analysis cancelled by user''), w3)
                      else
                        (case Repository_create E uid url fileTree w3 of
                           (Inl e, w4) \<Rightarrow> ((500, Failure ''Failed to analyze repository'' e), w4)
                         | (Inr u, w4) \<Rightarrow>
                             ((200, Analyzed ''Repository analyzed successfully'' owner repo
                                     fileTree depth), w4)))))"

text \<open>\<^verbatim>\<open>router.post('/analyze/cancel')\<close> for the caller \<open>uid\<close>.\<close>

definition cancel :: "string \<Rightarrow> world \<Rightarrow> response \<times> world" where
  "cancel uid w =
     ((200, Message ''Analysis cancellation requested''),
      w\<lparr>activeAnalyses := markCancelled uid (activeAnalyses w)\<rparr>)"

subsection \<open>Notions the stated properties use\<close>

text \<open>An element of some array the upstream returns for this repository.\<close>

definition upstreamEntry :: "env \<Rightarrow> string \<Rightarrow> string \<Rightarrow> item \<Rightarrow> bool" where
  "upstreamEntry E owner repo it =
     (\<exists>path items. listing E owner repo path = Inr items \<and> it \<in> set items)"

text \<open>The progress formula in the specification's words: \<open>min(100, round(100 * depth / maxDepth))\<close>.\<close>

definition specProgress :: "nat \<Rightarrow> nat \<Rightarrow> nat" where
  "specProgress depth maxDepth = nat (min 100 (round (100 * real depth / real maxDepth)))"

text \<open>
  What holds of every node below the root of a crawl with depth limit \<open>m\<close>: its name is
  not skipped, a file has an admissible size, and its depth is at most \<open>m + 1\<close>, reached
  exactly by the truncated folders, which have no children.
\<close>

definition nodeOk :: "nat \<Rightarrow> node \<Rightarrow> bool" where
  "nodeOk m n =
     (\<not> shouldSkip (node_name n) \<and>
      (is_file n \<longrightarrow> sizeOk (file_size n)) \<and>
      (\<exists>k. node_depth n = Some k \<and> k \<le> m + 1 \<and>
           ((k = m + 1) = (node_truncated n = Some True)) \<and>
           (node_truncated n = Some True \<longrightarrow> \<not> is_file n \<and> node_children n = [])))"

text \<open>
  A request for the path of a directory entry that is not skipped, and a progress write
  that carries the formula's value for a positive depth.
\<close>

definition requestOk :: "env \<Rightarrow> string \<Rightarrow> string \<Rightarrow> (string \<times> string \<times> string) \<Rightarrow> bool" where
  "requestOk E owner repo x =
     (\<exists>it. upstreamEntry E owner repo it \<and> item_type it = ''dir'' \<and>
           \<not> shouldSkip (item_name it) \<and> x = (owner, repo, item_path it))"

definition writeOk :: "string option \<Rightarrow> nat \<Rightarrow> (string \<times> nat \<times> nat) \<Rightarrow> bool" where
  "writeOk aid maxDepth x =
     (case x of (i, k, p) \<Rightarrow> aid = Some i \<and> i \<noteq> [] \<and> 0 < k \<and> p = progressOf k maxDepth)"

text \<open>
  The rounding \<open>fl\<close> written out for a number whose binary exponent is \<open>- k\<close> or \<open>k\<close>.
\<close>

definition below1 :: "nat \<Rightarrow> real \<Rightarrow> real" where
  "below1 k x = of_int (rne (x * 2 ^ (52 + k))) / 2 ^ (52 + k)"

definition above1 :: "nat \<Rightarrow> real \<Rightarrow> real" where
  "above1 k x = of_int (rne (x * 2 ^ (52 - k))) / 2 ^ (52 - k)"

text \<open>
  A progress write of the session \<open>i\<close> at a depth of at least \<open>lo\<close>; and a state in which
  the session holds what the latest write of the log says.
\<close>

definition writeFrom :: "string \<Rightarrow> nat \<Rightarrow> nat \<Rightarrow> (string \<times> nat \<times> nat) \<Rightarrow> bool" where
  "writeFrom i maxDepth lo x =
     (case x of (j, k, p) \<Rightarrow> j = i \<and> 0 < k \<and> lo \<le> k \<and> p = progressOf k maxDepth)"

definition synced :: "string \<Rightarrow> nat \<Rightarrow> world \<Rightarrow> bool" where
  "synced i maxDepth w =
     (progressLog w \<noteq> [] \<and>
      (case last (progressLog w) of
         (j, k, p) \<Rightarrow> j = i \<and> p = progressOf k maxDepth \<and>
           (\<exists>s. map_of (activeAnalyses w) i = Some s \<and> currentDepth s = Some k \<and>
                progress s = Some p)))"





text \<open>\<open>nodeOk\<close> of every node in a sequence of children and of everything below them.\<close>

definition allOk :: "nat \<Rightarrow> node list \<Rightarrow> bool" where
  "allOk m cs = (\<forall>c\<in>set cs. \<forall>n\<in>set (c # descendants c). nodeOk m n)"

subsection \<open>Example inputs\<close>

definition fileItem :: "string \<Rightarrow> string \<Rightarrow> nat \<Rightarrow> item" where
  "fileItem nm p sz =
     \<lparr>item_name = nm, item_type = ''file'', item_path = p, item_size = Some sz,
      item_download_url = Some (''https://raw.example/'' @ p)\<rparr>"

definition dirItem :: "string \<Rightarrow> string \<Rightarrow> item" where
  "dirItem nm p =
     \<lparr>item_name = nm, item_type = ''dir'', item_path = p, item_size = Some 0,
      item_download_url = None\<rparr>"

definition widgetsListing :: "string \<Rightarrow> string \<Rightarrow> string \<Rightarrow> string + item list" where
  "widgetsListing owner repo path =
     (if path = [] then
        Inr [fileItem ''readme.txt'' ''readme.txt'' 10, dirItem ''src'' ''src'',
             dirItem ''docs'' ''docs'', dirItem ''node_modules'' ''node_modules'',
             fileItem ''empty.txt'' ''empty.txt'' 0, fileItem ''big.bin'' ''big.bin'' 2000000]
      else if path = ''src'' then
        Inr [dirItem ''a'' ''src/a'', fileItem ''main.js'' ''src/main.js'' 120]
      else if path = ''src/a'' then Inr [fileItem ''x.txt'' ''src/a/x.txt'' 5]
      else if path = ''docs'' then Inr [fileItem ''guide.md'' ''docs/guide.md'' 30]
      else if path = ''node_modules'' then Inr [fileItem ''index.js'' ''node_modules/index.js'' 7]
      else Inl ''Request failed with status code 404'')"

text \<open>An upstream nobody cancels, one where the caller 7 cancels during the first request,
  and one that answers every request with an error.\<close>

definition quiet :: env where
  "quiet = \<lparr>listing = widgetsListing, cancelRequests = (\<lambda>k. []), createError = None\<rparr>"

definition cancelDuringRoot :: env where
  "cancelDuringRoot =
     \<lparr>listing = widgetsListing, cancelRequests = (\<lambda>k. if k = 0 then [''7''] else []),
      createError = None\<rparr>"

definition notFound :: env where
  "notFound =
     \<lparr>listing = (\<lambda>owner repo path. Inl ''Request failed with status code 404''),
      cancelRequests = (\<lambda>k. []), createError = None\<rparr>"

text \<open>A repository that is itself called \<^verbatim>\<open>dist\<close> and holds a directory \<^verbatim>\<open>dist\<close>.\<close>

definition distListing :: "string \<Rightarrow> string \<Rightarrow> string \<Rightarrow> string + item list" where
  "distListing owner repo path =
     (if path = [] then Inr [dirItem ''dist'' ''dist'', fileItem ''index.js'' ''index.js'' 40]
      else if path = ''dist'' then Inr [fileItem ''bundle.js'' ''dist/bundle.js'' 900]
      else Inl ''Request failed with status code 404'')"

definition distEnv :: env where
  "distEnv = \<lparr>listing = distListing, cancelRequests = (\<lambda>k. []), createError = None\<rparr>"

definition w0 :: world where
  "w0 = \<lparr>activeAnalyses = [], saved = [], fetched = [], progressLog = []\<rparr>"

text \<open>The state in which \<^verbatim>\<open>/analyze\<close> starts the crawl for caller 7 at time 1000.\<close>

definition started :: world where
  "started = w0\<lparr>activeAnalyses := [(''7-1000'', newSession)]\<rparr>"

text \<open>The trees the example crawls return with depth limit 1.\<close>

definition truncatedA :: node where
  "truncatedA =
     Folder ''a'' (Some ''src/a'') [] (Some 2) (Some True) (Some ''Maximum depth (1) reached'')"

definition readmeNode :: node where
  "readmeNode =
     File ''readme.txt'' ''readme.txt'' (Some ''https://raw.example/readme.txt'') (Some 10) 0"

definition widgetsTree :: node where
  "widgetsTree =
     Folder ''widgets'' None
       [readmeNode,
        Folder ''src'' (Some ''src'')
          [truncatedA,
           File ''main.js'' ''src/main.js'' (Some ''https://raw.example/src/main.js'') (Some 120) 1]
          (Some 1) None None,
        Folder ''docs'' (Some ''docs'')
          [File ''guide.md'' ''docs/guide.md'' (Some ''https://raw.example/docs/guide.md'')
             (Some 30) 1]
          (Some 1) None None]
       (Some 0) None None"


definition distTree :: node where
  "distTree =
     Folder ''dist'' None
       [File ''index.js'' ''index.js'' (Some ''https://raw.example/index.js'') (Some 40) 0]
       (Some 0) None None"

section \<open>Properties\<close>

subsection \<open>Rounding to doubles\<close>

lemma rne_bounds: "\<lfloor>x\<rfloor> \<le> rne x \<and> rne x \<le> \<lfloor>x\<rfloor> + 1"
  by (simp add: rne_def Let_def)

lemma rne_of_int [simp]: "rne (of_int n) = n"
  by (simp add: rne_def)

lemma rne_mono:
  assumes "x \<le> y"
  shows "rne x \<le> rne y"
proof (cases "\<lfloor>x\<rfloor> = \<lfloor>y\<rfloor>")
  case False
  with assms have "\<lfloor>x\<rfloor> < \<lfloor>y\<rfloor>" by (simp add: floor_mono order.strict_iff_order)
  with rne_bounds [of x] rne_bounds [of y] show ?thesis by linarith
next
  case True
  with assms show ?thesis
    by (auto simp: rne_def Let_def)
qed

lemma expo_bounds:
  assumes "0 < x"
  shows "2 powr (of_int (expo x)) \<le> x" and "x < 2 powr (of_int (expo x) + 1)"
  using floor_log_eq_powr_iff [of x 2 "expo x"] assms by (simp_all add: expo_def)

lemma expo_eqI:
  "0 < x \<Longrightarrow> 2 powr (of_int e) \<le> x \<Longrightarrow> x < 2 powr (of_int e + 1) \<Longrightarrow> expo x = e"
  using floor_log_eq_powr_iff [of x 2 e] by (simp add: expo_def)

lemma expo_mono:
  assumes "0 < x" "x \<le> y"
  shows "expo x \<le> expo y"
  unfolding expo_def using assms by (intro floor_mono) simp

lemma ulp_pos: "0 < ulp x"
  by (simp add: ulp_def)

lemma fl_lower:
  assumes "0 < x"
  shows "2 powr (of_int (expo x)) \<le> fl x"
proof -
  have "2 powr (of_int (expo x)) = 2 ^ 52 * ulp x"
    by (simp add: ulp_def powr_diff)
  moreover have "(2::real) ^ 52 \<le> x / ulp x"
    using expo_bounds(1) [OF assms] ulp_pos [of x]
    by (simp add: ulp_def powr_diff field_simps)
  then have "rne (2 ^ 52) \<le> rne (x / ulp x)" by (rule rne_mono)
  then have "(2::int) ^ 52 \<le> rne (x / ulp x)"
    using rne_of_int [of "2 ^ 52"] by simp
  then have "(2::real) ^ 52 \<le> of_int (rne (x / ulp x))"
    by (metis of_int_le_iff of_int_numeral of_int_power)
  ultimately show ?thesis using assms ulp_pos [of x]
    by (simp add: fl_def)
qed

lemma fl_upper:
  assumes "0 < x"
  shows "fl x \<le> 2 powr (of_int (expo x) + 1)"
proof -
  have "2 powr (of_int (expo x) + 1) = 2 ^ 53 * ulp x"
    by (simp add: ulp_def powr_diff powr_add)
  moreover have "x / ulp x \<le> (2::real) ^ 53"
    using expo_bounds(2) [OF assms] ulp_pos [of x]
    by (simp add: ulp_def powr_diff powr_add field_simps)
  then have "rne (x / ulp x) \<le> rne (2 ^ 53)" by (rule rne_mono)
  then have "rne (x / ulp x) \<le> (2::int) ^ 53"
    using rne_of_int [of "2 ^ 53"] by simp
  then have "of_int (rne (x / ulp x)) \<le> (2::real) ^ 53"
    by (metis of_int_le_iff of_int_numeral of_int_power)
  ultimately show ?thesis using assms ulp_pos [of x]
    by (simp add: fl_def)
qed

lemma fl_nonneg: "0 \<le> fl x"
proof (cases "x \<le> 0")
  case True then show ?thesis by (simp add: fl_def)
next
  case False
  then have "0 < x" by simp
  from fl_lower [OF this] show ?thesis
    by (meson order_trans powr_ge_zero)
qed

text \<open>Rounding to a double is monotone.\<close>

lemma fl_mono:
  assumes "x \<le> y"
  shows "fl x \<le> fl y"
proof (cases "x \<le> 0")
  case True
  then show ?thesis by (simp add: fl_def fl_nonneg [of y, unfolded fl_def])
next
  case False
  then have x: "0 < x" and y: "0 < y" using assms by simp_all
  show ?thesis
  proof (cases "expo x = expo y")
    case True
    then have u: "ulp x = ulp y" by (simp add: ulp_def)
    from assms ulp_pos [of y] have "x / ulp y \<le> y / ulp y" by (simp add: divide_right_mono)
    then have "rne (x / ulp y) \<le> rne (y / ulp y)" by (rule rne_mono)
    with x y u ulp_pos [of y] show ?thesis by (simp add: fl_def)
  next
    case False
    with expo_mono [OF x assms] have "expo x + 1 \<le> expo y" by simp
    then have "(2::real) powr (of_int (expo x) + 1) \<le> 2 powr (of_int (expo y))"
      by (simp add: powr_mono)
    with fl_upper [OF x] fl_lower [OF y] show ?thesis by linarith
  qed
qed

text \<open>The rounding of a number of a known binary exponent, for evaluation.\<close>

lemma fl_at:
  assumes "0 < x" "2 powr (of_int e) \<le> x" "x < 2 powr (of_int e + 1)"
  shows "fl x = of_int (rne (x / 2 powr (of_int e - 52))) * 2 powr (of_int e - 52)"
  using assms expo_eqI [OF assms] by (simp add: fl_def ulp_def)

lemma fl_below1:
  assumes "1 \<le> x * 2 ^ k" "x * 2 ^ k < 2"
  shows "fl x = below1 k x"
proof -
  have p: "2 powr (- real k) = 1 / (2::real) ^ k"
    by (simp add: powr_minus powr_realpow inverse_eq_divide)
  from assms(1) have x: "0 < x"
    by (smt (verit) mult_nonpos_nonneg zero_le_power)
  have a: "2 powr (of_int (- int k)) \<le> x" using assms(1) by (simp add: p field_simps)
  have b': "2 powr (1 - real k) = 2 / (2::real) ^ k"
    by (simp add: powr_diff powr_realpow)
  have b: "x < 2 powr (of_int (- int k) + 1)"
    using assms(2) by (simp add: b' field_simps)
  have q: "2 powr (- real k - 52) = 1 / (2::real) ^ (52 + k)"
    by (simp add: powr_diff p power_add)
  from fl_at [OF x a b] show ?thesis
    by (simp add: q below1_def)
qed

lemma fl_above1:
  assumes "2 ^ k \<le> x" "x < 2 ^ (k + 1)" "k \<le> 52"
  shows "fl x = above1 k x"
proof -
  have p: "2 powr (real k) = (2::real) ^ k"
    by (simp add: powr_realpow)
  from assms(1) have x: "0 < x"
    by (smt (verit) zero_less_power)
  have a: "2 powr (of_int (int k)) \<le> x" using assms(1) by (simp add: p)
  have b: "x < 2 powr (of_int (int k) + 1)"
    using assms(2) by (simp add: powr_add p)
  have "(2::real) ^ 52 = 2 ^ (52 - k) * 2 ^ k"
    using assms(3) by (simp flip: power_add)
  then have q: "2 powr (real k - 52) = 1 / (2::real) ^ (52 - k)"
    by (simp add: powr_diff p field_simps)
  from fl_at [OF x a b] show ?thesis
    by (simp add: q above1_def)
qed

lemma fl_unit:
  assumes "1 / 32 \<le> x" "x < 1"
  shows "fl x = (if x < 1 / 16 then below1 5 x else if x < 1 / 8 then below1 4 x
                 else if x < 1 / 4 then below1 3 x else if x < 1 / 2 then below1 2 x
                 else below1 1 x)"
  using assms by (auto intro!: fl_below1)

lemma fl_mid:
  assumes "1 \<le> x" "x < 128"
  shows "fl x = (if x < 2 then above1 0 x else if x < 4 then above1 1 x
                 else if x < 8 then above1 2 x else if x < 16 then above1 3 x
                 else if x < 32 then above1 4 x else if x < 64 then above1 5 x
                 else above1 6 x)"
  using assms by (auto intro!: fl_above1)

lemmas fl_eval = fl_unit fl_mid below1_def above1_def rne_def Let_def round_def

lemma fl_1: "fl 1 = 1"
  by (simp add: fl_eval)

lemma fl_100: "fl 100 = 100"
  by (simp add: fl_eval)


subsection \<open>The progress formula in integer arithmetic\<close>

text \<open>
  The values the code computes for the depth limits \<open>/analyze\<close> allows, 1 to 20, and the
  depths within the limit, each evaluated with the two roundings.
\<close>

lemma progressOf_table_1:
  "list_all (\<lambda>d. progressOf d 1 = (200 * d + 1) div 2) [1]"
  by (simp add: progressOf_def fl_eval)

lemma progressOf_table_2:
  "list_all (\<lambda>d. progressOf d 2 = (200 * d + 2) div 4) [1, 2]"
  by (simp add: progressOf_def fl_eval)

lemma progressOf_table_3:
  "list_all (\<lambda>d. progressOf d 3 = (200 * d + 3) div 6) [1, 2, 3]"
  by (simp add: progressOf_def fl_eval)

lemma progressOf_table_4:
  "list_all (\<lambda>d. progressOf d 4 = (200 * d + 4) div 8) [1, 2, 3, 4]"
  by (simp add: progressOf_def fl_eval)

lemma progressOf_table_5:
  "list_all (\<lambda>d. progressOf d 5 = (200 * d + 5) div 10) [1, 2, 3, 4, 5]"
  by (simp add: progressOf_def fl_eval)

lemma progressOf_table_6:
  "list_all (\<lambda>d. progressOf d 6 = (200 * d + 6) div 12) [1, 2, 3, 4, 5, 6]"
  by (simp add: progressOf_def fl_eval)

lemma progressOf_table_7:
  "list_all (\<lambda>d. progressOf d 7 = (200 * d + 7) div 14) [1, 2, 3, 4, 5, 6, 7]"
  by (simp add: progressOf_def fl_eval)

lemma progressOf_table_8:
  "list_all (\<lambda>d. progressOf d 8 = (200 * d + 8) div 16) [1, 2, 3, 4, 5, 6, 7, 8]"
  by (simp add: progressOf_def fl_eval)

lemma progressOf_table_9:
  "list_all (\<lambda>d. progressOf d 9 = (200 * d + 9) div 18) [1, 2, 3, 4, 5, 6, 7, 8, 9]"
  by (simp add: progressOf_def fl_eval)

lemma progressOf_table_10:
  "list_all (\<lambda>d. progressOf d 10 = (200 * d + 10) div 20) [1, 2, 3, 4, 5, 6, 7, 8, 9, 10]"
  by (simp add: progressOf_def fl_eval)

lemma progressOf_table_11:
  "list_all (\<lambda>d. progressOf d 11 = (200 * d + 11) div 22) [1, 2, 3, 4, 5, 6, 7, 8, 9, 10, 11]"
  by (simp add: progressOf_def fl_eval)

lemma progressOf_table_12:
  "list_all (\<lambda>d. progressOf d 12 = (200 * d + 12) div 24) [1, 2, 3, 4, 5, 6, 7, 8, 9, 10, 11, 12]"
  by (simp add: progressOf_def fl_eval)

lemma progressOf_table_13:
  "list_all (\<lambda>d. progressOf d 13 = (200 * d + 13) div 26) [1, 2, 3, 4, 5, 6, 7, 8, 9, 10, 11, 12, 13]"
  by (simp add: progressOf_def fl_eval)

lemma progressOf_table_14:
  "list_all (\<lambda>d. progressOf d 14 = (200 * d + 14) div 28) [1, 2, 3, 4, 5, 6, 7, 8, 9, 10, 11, 12, 13, 14]"
  by (simp add: progressOf_def fl_eval)

lemma progressOf_table_15:
  "list_all (\<lambda>d. progressOf d 15 = (200 * d + 15) div 30) [1, 2, 3, 4, 5, 6, 7, 8, 9, 10, 11, 12, 13, 14, 15]"
  by (simp add: progressOf_def fl_eval)

lemma progressOf_table_16:
  "list_all (\<lambda>d. progressOf d 16 = (200 * d + 16) div 32) [1, 2, 3, 4, 5, 6, 7, 8, 9, 10, 11, 12, 13, 14, 15, 16]"
  by (simp add: progressOf_def fl_eval)

lemma progressOf_table_17:
  "list_all (\<lambda>d. progressOf d 17 = (200 * d + 17) div 34) [1, 2, 3, 4, 5, 6, 7, 8, 9, 10, 11, 12, 13, 14, 15, 16, 17]"
  by (simp add: progressOf_def fl_eval)

lemma progressOf_table_18:
  "list_all (\<lambda>d. progressOf d 18 = (200 * d + 18) div 36) [1, 2, 3, 4, 5, 6, 7, 8, 9, 10, 11, 12, 13, 14, 15, 16, 17, 18]"
  by (simp add: progressOf_def fl_eval)

lemma progressOf_table_19:
  "list_all (\<lambda>d. progressOf d 19 = (200 * d + 19) div 38) [1, 2, 3, 4, 5, 6, 7, 8, 9, 10, 11, 12, 13, 14, 15, 16, 17, 18, 19]"
  by (simp add: progressOf_def fl_eval)

lemma progressOf_table_20:
  "list_all (\<lambda>d. progressOf d 20 = (200 * d + 20) div 40) [1, 2, 3, 4, 5, 6, 7, 8, 9, 10, 11, 12, 13, 14, 15, 16, 17, 18, 19, 20]"
  by (simp add: progressOf_def fl_eval)

lemma progressOf_table:
  assumes "1 \<le> d" and "d \<le> m" and "m \<le> 20"
  shows "progressOf d m = (200 * d + m) div (2 * m)"
proof -
  from assms have "m = 1 \<or> m = 2 \<or> m = 3 \<or> m = 4 \<or> m = 5 \<or> m = 6 \<or> m = 7 \<or> m = 8 \<or> m = 9
      \<or> m = 10 \<or> m = 11 \<or> m = 12 \<or> m = 13 \<or> m = 14 \<or> m = 15 \<or> m = 16 \<or> m = 17 \<or> m = 18
      \<or> m = 19 \<or> m = 20"
    by arith
  then show ?thesis
  proof (elim disjE)
    assume m: "m = 1"
    with assms have "d \<in> set [1]" by (simp only: set_simps insert_iff empty_iff) arith
    with progressOf_table_1 have "progressOf d 1 = (200 * d + 1) div 2"
      by (simp only: list_all_iff)
    with m show ?thesis by simp
  next
    assume m: "m = 2"
    with assms have "d \<in> set [1, 2]" by (simp only: set_simps insert_iff empty_iff) arith
    with progressOf_table_2 have "progressOf d 2 = (200 * d + 2) div 4"
      by (simp only: list_all_iff)
    with m show ?thesis by simp
  next
    assume m: "m = 3"
    with assms have "d \<in> set [1, 2, 3]" by (simp only: set_simps insert_iff empty_iff) arith
    with progressOf_table_3 have "progressOf d 3 = (200 * d + 3) div 6"
      by (simp only: list_all_iff)
    with m show ?thesis by simp
  next
    assume m: "m = 4"
    with assms have "d \<in> set [1, 2, 3, 4]" by (simp only: set_simps insert_iff empty_iff) arith
    with progressOf_table_4 have "progressOf d 4 = (200 * d + 4) div 8"
      by (simp only: list_all_iff)
    with m show ?thesis by simp
  next
    assume m: "m = 5"
    with assms have "d \<in> set [1, 2, 3, 4, 5]" by (simp only: set_simps insert_iff empty_iff) arith
    with progressOf_table_5 have "progressOf d 5 = (200 * d + 5) div 10"
      by (simp only: list_all_iff)
    with m show ?thesis by simp
  next
    assume m: "m = 6"
    with assms have "d \<in> set [1, 2, 3, 4, 5, 6]" by (simp only: set_simps insert_iff empty_iff) arith
    with progressOf_table_6 have "progressOf d 6 = (200 * d + 6) div 12"
      by (simp only: list_all_iff)
    with m show ?thesis by simp
  next
    assume m: "m = 7"
    with assms have "d \<in> set [1, 2, 3, 4, 5, 6, 7]" by (simp only: set_simps insert_iff empty_iff) arith
    with progressOf_table_7 have "progressOf d 7 = (200 * d + 7) div 14"
      by (simp only: list_all_iff)
    with m show ?thesis by simp
  next
    assume m: "m = 8"
    with assms have "d \<in> set [1, 2, 3, 4, 5, 6, 7, 8]" by (simp only: set_simps insert_iff empty_iff) arith
    with progressOf_table_8 have "progressOf d 8 = (200 * d + 8) div 16"
      by (simp only: list_all_iff)
    with m show ?thesis by simp
  next
    assume m: "m = 9"
    with assms have "d \<in> set [1, 2, 3, 4, 5, 6, 7, 8, 9]" by (simp only: set_simps insert_iff empty_iff) arith
    with progressOf_table_9 have "progressOf d 9 = (200 * d + 9) div 18"
      by (simp only: list_all_iff)
    with m show ?thesis by simp
  next
    assume m: "m = 10"
    with assms have "d \<in> set [1, 2, 3, 4, 5, 6, 7, 8, 9, 10]" by (simp only: set_simps insert_iff empty_iff) arith
    with progressOf_table_10 have "progressOf d 10 = (200 * d + 10) div 20"
      by (simp only: list_all_iff)
    with m show ?thesis by simp
  next
    assume m: "m = 11"
    with assms have "d \<in> set [1, 2, 3, 4, 5, 6, 7, 8, 9, 10, 11]" by (simp only: set_simps insert_iff empty_iff) arith
    with progressOf_table_11 have "progressOf d 11 = (200 * d + 11) div 22"
      by (simp only: list_all_iff)
    with m show ?thesis by simp
  next
    assume m: "m = 12"
    with assms have "d \<in> set [1, 2, 3, 4, 5, 6, 7, 8, 9, 10, 11, 12]" by (simp only: set_simps insert_iff empty_iff) arith
    with progressOf_table_12 have "progressOf d 12 = (200 * d + 12) div 24"
      by (simp only: list_all_iff)
    with m show ?thesis by simp
  next
    assume m: "m = 13"
    with assms have "d \<in> set [1, 2, 3, 4, 5, 6, 7, 8, 9, 10, 11, 12, 13]" by (simp only: set_simps insert_iff empty_iff) arith
    with progressOf_table_13 have "progressOf d 13 = (200 * d + 13) div 26"
      by (simp only: list_all_iff)
    with m show ?thesis by simp
  next
    assume m: "m = 14"
    with assms have "d \<in> set [1, 2, 3, 4, 5, 6, 7, 8, 9, 10, 11, 12, 13, 14]" by (simp only: set_simps insert_iff empty_iff) arith
    with progressOf_table_14 have "progressOf d 14 = (200 * d + 14) div 28"
      by (simp only: list_all_iff)
    with m show ?thesis by simp
  next
    assume m: "m = 15"
    with assms have "d \<in> set [1, 2, 3, 4, 5, 6, 7, 8, 9, 10, 11, 12, 13, 14, 15]" by (simp only: set_simps insert_iff empty_iff) arith
    with progressOf_table_15 have "progressOf d 15 = (200 * d + 15) div 30"
      by (simp only: list_all_iff)
    with m show ?thesis by simp
  next
    assume m: "m = 16"
    with assms have "d \<in> set [1, 2, 3, 4, 5, 6, 7, 8, 9, 10, 11, 12, 13, 14, 15, 16]" by (simp only: set_simps insert_iff empty_iff) arith
    with progressOf_table_16 have "progressOf d 16 = (200 * d + 16) div 32"
      by (simp only: list_all_iff)
    with m show ?thesis by simp
  next
    assume m: "m = 17"
    with assms have "d \<in> set [1, 2, 3, 4, 5, 6, 7, 8, 9, 10, 11, 12, 13, 14, 15, 16, 17]" by (simp only: set_simps insert_iff empty_iff) arith
    with progressOf_table_17 have "progressOf d 17 = (200 * d + 17) div 34"
      by (simp only: list_all_iff)
    with m show ?thesis by simp
  next
    assume m: "m = 18"
    with assms have "d \<in> set [1, 2, 3, 4, 5, 6, 7, 8, 9, 10, 11, 12, 13, 14, 15, 16, 17, 18]" by (simp only: set_simps insert_iff empty_iff) arith
    with progressOf_table_18 have "progressOf d 18 = (200 * d + 18) div 36"
      by (simp only: list_all_iff)
    with m show ?thesis by simp
  next
    assume m: "m = 19"
    with assms have "d \<in> set [1, 2, 3, 4, 5, 6, 7, 8, 9, 10, 11, 12, 13, 14, 15, 16, 17, 18, 19]" by (simp only: set_simps insert_iff empty_iff) arith
    with progressOf_table_19 have "progressOf d 19 = (200 * d + 19) div 38"
      by (simp only: list_all_iff)
    with m show ?thesis by simp
  next
    assume m: "m = 20"
    with assms have "d \<in> set [1, 2, 3, 4, 5, 6, 7, 8, 9, 10, 11, 12, 13, 14, 15, 16, 17, 18, 19, 20]" by (simp only: set_simps insert_iff empty_iff) arith
    with progressOf_table_20 have "progressOf d 20 = (200 * d + 20) div 40"
      by (simp only: list_all_iff)
    with m show ?thesis by simp
  qed
qed

text \<open>At the limit and beyond it the value is 100, for every limit.\<close>

lemma progressOf_full:
  assumes "0 < m" and "m \<le> d"
  shows "progressOf d m = 100"
proof -
  from assms have "1 \<le> real d / real m" by simp
  then have "fl 1 \<le> fl (real d / real m)" by (rule fl_mono)
  then have "100 \<le> fl (real d / real m) * 100" by (simp add: fl_1)
  then have "fl 100 \<le> fl (fl (real d / real m) * 100)" by (rule fl_mono)
  then have "min (fl (fl (real d / real m) * 100)) 100 = 100" by (simp add: fl_100)
  with assms show ?thesis by (simp add: progressOf_def)
qed

lemma progressOf_zero: "0 < m \<Longrightarrow> progressOf 0 m = 0"
  by (simp add: progressOf_def fl_def)

lemma progressOf_code:
  assumes "1 \<le> m" and "m \<le> 20"
  shows "progressOf d m = min ((200 * d + m) div (2 * m)) 100"
proof -
  consider "d = 0" | "1 \<le> d" "d \<le> m" | "m < d" by arith
  then show ?thesis
  proof cases
    case 1
    with assms show ?thesis by (simp add: progressOf_zero)
  next
    case 2
    have "(200 * d + m) div (2 * m) \<le> (200 * m + m) div (2 * m)"
      using 2 by (intro div_le_mono) simp
    also have "(200 * m + m) div (2 * m) = 100" using assms by simp
    finally show ?thesis using progressOf_table [OF 2 assms(2)] by simp
  next
    case 3
    with assms have "100 * (2 * m) \<le> 200 * d + m" by simp
    then have "100 \<le> (200 * d + m) div (2 * m)"
      using assms by (simp add: less_eq_div_iff_mult_less_eq)
    with 3 assms show ?thesis by (simp add: progressOf_full)
  qed
qed

text \<open>The formula over the reals, in integer arithmetic.\<close>

lemma specProgress_code:
  assumes "0 < m"
  shows "specProgress d m = min ((200 * d + m) div (2 * m)) 100"
proof -
  have "100 * real d / real m + 1 / 2 = real (200 * d + m) / real (2 * m)"
    using assms by (simp add: field_simps)
  then have "round (100 * real d / real m) = \<lfloor>real (200 * d + m) / real (2 * m)\<rfloor>"
    by (simp add: round_def)
  also have "\<dots> = int ((200 * d + m) div (2 * m))"
    by (simp only: floor_divide_of_nat_eq)
  finally show ?thesis by (simp add: specProgress_def min.commute)
qed

text \<open>
  Beyond the limits \<open>/analyze\<close> allows the two differ: the double nearest to 23 / 40 is below
  it, and its product with 100 rounds to a double below 57.5.
\<close>

lemma progressOf_rounding_beyond_20:
  "progressOf 23 40 = 57 \<and> specProgress 23 40 = 58 \<and>
   progressOf 29 200 = 14 \<and> specProgress 29 200 = 15"
  by (simp add: specProgress_code) (simp add: progressOf_def fl_eval)


subsection \<open>What the skip patterns match\<close>

text \<open>
  Every name in the list of exact patterns is skipped, and so is every name that ends in
  one of the suffixes behind a star. The unanchored expressions match more names than
  these, such as \<^verbatim>\<open>blog\<close>.
\<close>

lemma regex_test_suffix: "match_here as s \<Longrightarrow> regex_test as (pre @ s)"
proof (induction pre)
  case Nil
  then show ?case by (cases s) simp_all
next
  case (Cons c pre)
  then show ?case by simp
qed

lemma wildcard_suffix_skipped:
  "shouldSkip (pre @ ''.log'')" "shouldSkip (pre @ ''.lock'')" "shouldSkip (pre @ ''.min.js'')"
  "shouldSkip (pre @ ''.min.css'')" "shouldSkip (pre @ ''.map'')"
  by (simp_all add: shouldSkip_def skipPatterns_def matches_pattern_def line_terminator_def
      regex_test_suffix)

lemma exact_name_skipped:
  "nm \<in> {''node_modules'', ''.git'', ''dist'', ''build'', ''.next'', ''.nuxt'', ''coverage'',
          ''.nyc_output'', ''.cache'', ''.parcel-cache''} \<Longrightarrow> shouldSkip nm"
  by (auto simp: shouldSkip_def skipPatterns_def matches_pattern_def)

lemma skipped_beyond_suffix: "shouldSkip ''blog''"
  by (simp add: shouldSkip_def skipPatterns_def matches_pattern_def line_terminator_def)

subsection \<open>One step of the crawl\<close>

declare forItems.simps(2) [simp del]

lemma build_cancelled:
  "isCancelled aid (activeAnalyses w) \<Longrightarrow>
   buildFileTreeWithCancellation E owner repo path aid depth maxDepth w =
     (Inl (wrapError cancelledMessage), w)"
  by (subst buildFileTreeWithCancellation.simps) simp

lemma build_truncated:
  "\<not> isCancelled aid (activeAnalyses w) \<Longrightarrow> maxDepth < depth \<Longrightarrow>
   buildFileTreeWithCancellation E owner repo path aid depth maxDepth w =
     (Inr (Folder (treeName path repo) None [] None (Some True) (Some (truncatedMessage maxDepth))),
      recordProgress aid depth maxDepth path w)"
  by (subst buildFileTreeWithCancellation.simps) (simp add: Let_def)

lemma build_fetch_error:
  "\<not> isCancelled aid (activeAnalyses w) \<Longrightarrow> \<not> maxDepth < depth \<Longrightarrow>
   fetch E owner repo path (recordProgress aid depth maxDepth path w) = (Inl e, w2) \<Longrightarrow>
   buildFileTreeWithCancellation E owner repo path aid depth maxDepth w = (Inl (wrapError e), w2)"
  by (subst buildFileTreeWithCancellation.simps) (simp add: Let_def)

lemma build_listed:
  "\<not> isCancelled aid (activeAnalyses w) \<Longrightarrow> \<not> maxDepth < depth \<Longrightarrow>
   fetch E owner repo path (recordProgress aid depth maxDepth path w) = (Inr its, w2) \<Longrightarrow>
   buildFileTreeWithCancellation E owner repo path aid depth maxDepth w =
     (case forItems E owner repo aid depth maxDepth its [] w2 of
        (Inl e, w3) \<Rightarrow> (Inl (wrapError e), w3)
      | (Inr cs, w3) \<Rightarrow> (Inr (Folder (treeName path repo) None cs (Some depth) None None), w3))"
  by (subst buildFileTreeWithCancellation.simps) (simp add: Let_def)

lemma forItems_cancelled:
  "isCancelled aid (activeAnalyses w) \<Longrightarrow>
   forItems E owner repo aid depth maxDepth (it # rest) cs w = (Inl cancelledMessage, w)"
  by (simp add: forItems.simps(2))

lemma forItems_skip:
  "\<not> isCancelled aid (activeAnalyses w) \<Longrightarrow> shouldSkip (item_name it) \<Longrightarrow>
   forItems E owner repo aid depth maxDepth (it # rest) cs w =
     forItems E owner repo aid depth maxDepth rest cs w"
  by (simp add: forItems.simps(2))

lemma forItems_dir:
  "\<not> isCancelled aid (activeAnalyses w) \<Longrightarrow> \<not> shouldSkip (item_name it) \<Longrightarrow>
   item_type it = ''dir'' \<Longrightarrow>
   forItems E owner repo aid depth maxDepth (it # rest) cs w =
     (case buildFileTreeWithCancellation E owner repo (item_path it) aid (depth + 1) maxDepth w of
        (Inl e, w') \<Rightarrow> (Inl e, w')
      | (Inr subTree, w') \<Rightarrow>
          forItems E owner repo aid depth maxDepth rest (cs @ [folderChild it depth subTree]) w')"
  by (simp add: forItems.simps(2))

lemma forItems_file:
  "\<not> isCancelled aid (activeAnalyses w) \<Longrightarrow> \<not> shouldSkip (item_name it) \<Longrightarrow>
   item_type it \<noteq> ''dir'' \<Longrightarrow>
   forItems E owner repo aid depth maxDepth (it # rest) cs w =
     forItems E owner repo aid depth maxDepth rest
       (if sizeOk (item_size it) then cs @ [fileChild it depth] else cs) w"
  by (simp add: forItems.simps(2))


lemma build_cases [consumes 1, case_names cancelled truncated fetch_error listed]:
  assumes "buildFileTreeWithCancellation E owner repo path aid depth maxDepth w = (r, w')"
  obtains
    "isCancelled aid (activeAnalyses w)" "r = Inl (wrapError cancelledMessage)" "w' = w"
  | "\<not> isCancelled aid (activeAnalyses w)" "maxDepth < depth"
    "r = Inr (Folder (treeName path repo) None [] None (Some True) (Some (truncatedMessage maxDepth)))"
    "w' = recordProgress aid depth maxDepth path w"
  | e where "\<not> isCancelled aid (activeAnalyses w)" "\<not> maxDepth < depth"
    "fetch E owner repo path (recordProgress aid depth maxDepth path w) = (Inl e, w')"
    "r = Inl (wrapError e)"
  | its w2 r2 where "\<not> isCancelled aid (activeAnalyses w)" "\<not> maxDepth < depth"
    "fetch E owner repo path (recordProgress aid depth maxDepth path w) = (Inr its, w2)"
    "forItems E owner repo aid depth maxDepth its [] w2 = (r2, w')"
    "r = (case r2 of Inl e \<Rightarrow> Inl (wrapError e)
          | Inr cs \<Rightarrow> Inr (Folder (treeName path repo) None cs (Some depth) None None))"
proof (cases "isCancelled aid (activeAnalyses w)")
  case True
  from assms True have "r = Inl (wrapError cancelledMessage)" "w' = w"
    by (simp_all add: build_cancelled)
  then show ?thesis by (rule that(1) [OF True])
next
  case nc: False
  show ?thesis
  proof (cases "maxDepth < depth")
    case True
    from assms nc True have
      "r = Inr (Folder (treeName path repo) None [] None (Some True) (Some (truncatedMessage maxDepth)))"
      "w' = recordProgress aid depth maxDepth path w"
      by (simp_all add: build_truncated)
    then show ?thesis by (rule that(2) [OF nc True])
  next
    case nt: False
    obtain x w2 where f: "fetch E owner repo path (recordProgress aid depth maxDepth path w) = (x, w2)"
      by (cases "fetch E owner repo path (recordProgress aid depth maxDepth path w)")
    show ?thesis
    proof (cases x)
      case (Inl e)
      with f have f': "fetch E owner repo path (recordProgress aid depth maxDepth path w) = (Inl e, w2)"
        by simp
      from assms have "r = Inl (wrapError e)" "w2 = w'"
        by (simp_all add: build_fetch_error [OF nc nt f'])
      with f' show ?thesis by (simp add: that(3) [OF nc nt])
    next
      case (Inr its)
      with f have f': "fetch E owner repo path (recordProgress aid depth maxDepth path w) = (Inr its, w2)"
        by simp
      obtain r2 w3 where l: "forItems E owner repo aid depth maxDepth its [] w2 = (r2, w3)"
        by (cases "forItems E owner repo aid depth maxDepth its [] w2")
      from assms l have "w3 = w'"
        and r: "r = (case r2 of Inl e \<Rightarrow> Inl (wrapError e)
          | Inr cs \<Rightarrow> Inr (Folder (treeName path repo) None cs (Some depth) None None))"
        by (simp_all add: build_listed [OF nc nt f'] split: sum.splits)
      with l have l': "forItems E owner repo aid depth maxDepth its [] w2 = (r2, w')" by simp
      show ?thesis by (rule that(4) [OF nc nt f' l' r])
    qed
  qed
qed

lemma forItems_cases [consumes 1, case_names cancelled skipped dir_error dir_done file_kept file_dropped]:
  assumes "forItems E owner repo aid depth maxDepth (it # rest) cs w = (r, w')"
  obtains
    "isCancelled aid (activeAnalyses w)" "r = Inl cancelledMessage" "w' = w"
  | "\<not> isCancelled aid (activeAnalyses w)" "shouldSkip (item_name it)"
    "forItems E owner repo aid depth maxDepth rest cs w = (r, w')"
  | e where "\<not> isCancelled aid (activeAnalyses w)" "\<not> shouldSkip (item_name it)"
    "item_type it = ''dir''"
    "buildFileTreeWithCancellation E owner repo (item_path it) aid (depth + 1) maxDepth w = (Inl e, w')"
    "r = Inl e"
  | subTree w1 where "\<not> isCancelled aid (activeAnalyses w)" "\<not> shouldSkip (item_name it)"
    "item_type it = ''dir''"
    "buildFileTreeWithCancellation E owner repo (item_path it) aid (depth + 1) maxDepth w = (Inr subTree, w1)"
    "forItems E owner repo aid depth maxDepth rest (cs @ [folderChild it depth subTree]) w1 = (r, w')"
  | "\<not> isCancelled aid (activeAnalyses w)" "\<not> shouldSkip (item_name it)"
    "item_type it \<noteq> ''dir''" "sizeOk (item_size it)"
    "forItems E owner repo aid depth maxDepth rest (cs @ [fileChild it depth]) w = (r, w')"
  | "\<not> isCancelled aid (activeAnalyses w)" "\<not> shouldSkip (item_name it)"
    "item_type it \<noteq> ''dir''" "\<not> sizeOk (item_size it)"
    "forItems E owner repo aid depth maxDepth rest cs w = (r, w')"
proof (cases "isCancelled aid (activeAnalyses w)")
  case True
  from assms have "r = Inl cancelledMessage" "w' = w"
    by (simp_all add: forItems_cancelled [OF True])
  then show ?thesis by (rule that(1) [OF True])
next
  case nc: False
  show ?thesis
  proof (cases "shouldSkip (item_name it)")
    case True
    from assms have "forItems E owner repo aid depth maxDepth rest cs w = (r, w')"
      by (simp add: forItems_skip [OF nc True])
    then show ?thesis by (rule that(2) [OF nc True])
  next
    case ns: False
    show ?thesis
    proof (cases "item_type it = ''dir''")
      case True
      obtain x w1 where b:
        "buildFileTreeWithCancellation E owner repo (item_path it) aid (depth + 1) maxDepth w = (x, w1)"
        by (cases "buildFileTreeWithCancellation E owner repo (item_path it) aid (depth + 1) maxDepth w")
      show ?thesis
      proof (cases x)
        case (Inl e)
        from assms b Inl have "r = Inl e" "w1 = w'"
          by (simp_all add: forItems_dir [OF nc ns True])
        with b Inl show ?thesis by (simp add: that(3) [OF nc ns True])
      next
        case (Inr subTree)
        with b have b': "buildFileTreeWithCancellation E owner repo (item_path it) aid (depth + 1) maxDepth w = (Inr subTree, w1)"
          by simp
        from assms b' have "forItems E owner repo aid depth maxDepth rest (cs @ [folderChild it depth subTree]) w1 = (r, w')"
          by (simp add: forItems_dir [OF nc ns True])
        then show ?thesis by (rule that(4) [OF nc ns True b'])
      qed
    next
      case nd: False
      show ?thesis
      proof (cases "sizeOk (item_size it)")
        case True
        from assms have "forItems E owner repo aid depth maxDepth rest (cs @ [fileChild it depth]) w = (r, w')"
          by (simp add: forItems_file [OF nc ns nd] True)
        then show ?thesis by (rule that(5) [OF nc ns nd True])
      next
        case False
        from assms have "forItems E owner repo aid depth maxDepth rest cs w = (r, w')"
          by (simp add: forItems_file [OF nc ns nd] False)
        then show ?thesis by (rule that(6) [OF nc ns nd False])
      qed
    qed
  qed
qed


subsection \<open>The nodes of a returned tree\<close>

lemma descendants_children:
  "descendants t = concat (map (\<lambda>c. c # descendants c) (node_children t))"
  by (cases t) simp_all

lemma descendants_folderChild:
  "descendants (folderChild it d sub) = descendants sub"
  by (simp add: folderChild_def descendants_children [of sub])

lemma nodeOk_fileChild:
  "\<not> shouldSkip (item_name it) \<Longrightarrow> sizeOk (item_size it) \<Longrightarrow> d \<le> m \<Longrightarrow> nodeOk m (fileChild it d)"
  by (simp add: nodeOk_def fileChild_def)

lemma nodeOk_folderChild_inner:
  "\<not> shouldSkip (item_name it) \<Longrightarrow> d < m \<Longrightarrow> node_truncated sub = None \<Longrightarrow>
   nodeOk m (folderChild it d sub)"
  by (simp add: nodeOk_def folderChild_def)

lemma nodeOk_folderChild_truncated:
  "\<not> shouldSkip (item_name it) \<Longrightarrow>
   nodeOk m (folderChild it m (Folder nm None [] None (Some True) msg))"
  by (simp add: nodeOk_def folderChild_def)

lemma allOk_Nil: "allOk m []"
  by (simp add: allOk_def)

lemma allOk_snoc: "allOk m cs \<Longrightarrow> nodeOk m c \<Longrightarrow> \<forall>n\<in>set (descendants c). nodeOk m n \<Longrightarrow> allOk m (cs @ [c])"
  by (auto simp: allOk_def)

lemma allOk_descendants: "allOk m cs \<Longrightarrow> \<forall>n\<in>set (descendants (Folder nm p cs d t msg)). nodeOk m n"
  by (auto simp: allOk_def)

lemma crawl_nodes:
  "buildFileTreeWithCancellation E owner repo path aid depth maxDepth w = (Inr t, w') \<Longrightarrow>
     (if depth > maxDepth
      then t = Folder (treeName path repo) None [] None (Some True) (Some (truncatedMessage maxDepth))
      else (\<exists>cs. t = Folder (treeName path repo) None cs (Some depth) None None \<and> allOk maxDepth cs))"
  "forItems E owner repo aid depth maxDepth items cs w = (Inr cs', w') \<Longrightarrow> depth \<le> maxDepth \<Longrightarrow>
     allOk maxDepth cs \<Longrightarrow> allOk maxDepth cs'"
proof (induction E owner repo path aid depth maxDepth w and E owner repo aid depth maxDepth items cs w
       arbitrary: t w' and cs' w' rule: buildFileTreeWithCancellation_forItems.induct)
  case (1 E owner repo path aid depth maxDepth w)
  from "1.prems" show ?case
  proof (cases rule: build_cases)
    case cancelled
    then show ?thesis by simp
  next
    case truncated
    then show ?thesis by simp
  next
    case (fetch_error e)
    then show ?thesis by simp
  next
    case (listed its w2 r2)
    from listed(5) obtain cs2 where r2: "r2 = Inr cs2"
      and t: "t = Folder (treeName path repo) None cs2 (Some depth) None None"
      by (cases r2) simp_all
    from listed(2) have le: "depth \<le> maxDepth" by simp
    have "allOk maxDepth cs2"
      using "1.IH" [OF listed(1) refl listed(2) listed(3) [symmetric] refl listed(4) [unfolded r2] le allOk_Nil] .
    with t listed(2) show ?thesis by simp
  qed
next
  case (2 E owner repo aid depth maxDepth cs w)
  then show ?case by simp
next
  case (3 E owner repo aid depth maxDepth it rest cs w)
  note le = "3.prems"(2) and ok = "3.prems"(3)
  from "3.prems"(1) show ?case
  proof (cases rule: forItems_cases)
    case cancelled
    then show ?thesis by simp
  next
    case skipped
    from "3.IH"(1) [OF skipped(1,2,3) le ok] show ?thesis .
  next
    case (dir_error e)
    then show ?thesis by simp
  next
    case (dir_done subTree w1)
    note ih = "3.IH"(2) [OF dir_done(1,2,3,4)]
    have "allOk maxDepth (cs @ [folderChild it depth subTree])"
    proof (cases "depth + 1 > maxDepth")
      case True
      with ih have "subTree = Folder (treeName (item_path it) repo) None [] None (Some True) (Some (truncatedMessage maxDepth))"
        by simp
      moreover from True le have "depth = maxDepth" by simp
      ultimately show ?thesis using dir_done(2) ok
        by (intro allOk_snoc) (simp_all add: descendants_folderChild nodeOk_folderChild_truncated)
    next
      case False
      with ih obtain cs2 where
        s: "subTree = Folder (treeName (item_path it) repo) None cs2 (Some (depth + 1)) None None"
        and a: "allOk maxDepth cs2"
        by auto
      from False have "depth < maxDepth" by simp
      with s a dir_done(2) ok show ?thesis
        by (intro allOk_snoc)
           (simp_all add: descendants_folderChild nodeOk_folderChild_inner allOk_descendants)
    qed
    from "3.IH"(3) [OF dir_done(1,2,3) dir_done(4) [symmetric] refl dir_done(5) le this]
    show ?thesis .
  next
    case file_kept
    have "allOk maxDepth (cs @ [fileChild it depth])"
      using ok file_kept(2,4) le
      by (intro allOk_snoc) (simp_all add: nodeOk_fileChild, simp add: fileChild_def)
    from "3.IH"(4) [OF file_kept(1,2,3,4,5) le this] show ?thesis .
  next
    case file_dropped
    from "3.IH"(5) [OF file_dropped(1,2,3,4,5) le ok] show ?thesis .
  qed
qed


subsection \<open>The requests issued and the progress written\<close>

lemma fetched_recordProgress [simp]:
  "fetched (recordProgress aid depth maxDepth path w) = fetched w"
  by (simp add: recordProgress_def updateProgress_def Let_def split: option.splits)

lemma fetch_result:
  "fetch E owner repo path w = (x, w2) \<Longrightarrow>
   x = listing E owner repo path \<and> fetched w2 = fetched w @ [(owner, repo, path)] \<and>
   progressLog w2 = progressLog w \<and> saved w2 = saved w"
  by (auto simp: fetch_def)

lemma log_extend:
  "l1 = l0 @ ps \<Longrightarrow> l2 = l1 @ qs \<Longrightarrow> \<forall>x\<in>set ps. P x \<Longrightarrow> \<forall>x\<in>set qs. P x \<Longrightarrow>
   \<exists>ys. l2 = l0 @ ys \<and> (\<forall>x\<in>set ys. P x)"
  by (rule exI [of _ "ps @ qs"]) auto

lemma log_same: "\<exists>ys. l = l @ ys \<and> (\<forall>x\<in>set ys. P x)"
  by (rule exI [of _ "[]"]) simp

lemma crawl_fetched:
  "buildFileTreeWithCancellation E owner repo path aid depth maxDepth w = (r, w') \<Longrightarrow>
     \<exists>ps. fetched w' = fetched w @ ps \<and>
          (\<forall>x\<in>set ps. x = (owner, repo, path) \<or> requestOk E owner repo x)"
  "forItems E owner repo aid depth maxDepth items cs w = (rl, w') \<Longrightarrow>
     \<forall>it\<in>set items. upstreamEntry E owner repo it \<Longrightarrow>
     \<exists>ps. fetched w' = fetched w @ ps \<and> (\<forall>x\<in>set ps. requestOk E owner repo x)"
proof (induction E owner repo path aid depth maxDepth w and E owner repo aid depth maxDepth items cs w
       arbitrary: r w' and rl w' rule: buildFileTreeWithCancellation_forItems.induct)
  case (1 E owner repo path aid depth maxDepth w)
  let ?P = "\<lambda>x. x = (owner, repo, path) \<or> requestOk E owner repo x"
  from "1.prems" show ?case
  proof (cases rule: build_cases)
    case cancelled
    from cancelled(3) show ?thesis by (simp only: log_same)
  next
    case truncated
    from truncated(4) show ?thesis by (simp only: fetched_recordProgress log_same)
  next
    case (fetch_error e)
    from fetch_result [OF fetch_error(3)]
    have "fetched w' = fetched w @ [(owner, repo, path)]" by simp
    then show ?thesis by (intro exI [of _ "[(owner, repo, path)]"]) simp
  next
    case (listed its w2 r2)
    note f = fetch_result [OF listed(3)]
    from f have "listing E owner repo path = Inr its" by simp
    then have "\<forall>it\<in>set its. upstreamEntry E owner repo it"
      unfolding upstreamEntry_def by blast
    from "1.IH" [OF listed(1) refl listed(2) listed(3) [symmetric] refl listed(4) this]
    obtain ps where ps: "fetched w' = fetched w2 @ ps" "\<forall>x\<in>set ps. requestOk E owner repo x"
      by blast
    from f have f': "fetched w2 = fetched w @ [(owner, repo, path)]" by simp
    have a: "\<forall>x\<in>set [(owner, repo, path)]. ?P x" by simp
    from ps(2) have b: "\<forall>x\<in>set ps. ?P x" by simp
    from log_extend [of "fetched w2" "fetched w" "[(owner, repo, path)]" "fetched w'" ps ?P,
        OF f' ps(1) a b]
    show ?thesis .
  qed
next
  case (2 E owner repo aid depth maxDepth cs w)
  from "2.prems"(1) have "w' = w" by simp
  then show ?case by (simp only: log_same)
next
  case (3 E owner repo aid depth maxDepth it rest cs w)
  from "3.prems"(2) have up: "upstreamEntry E owner repo it"
    and rest: "\<forall>it\<in>set rest. upstreamEntry E owner repo it" by simp_all
  from "3.prems"(1) show ?case
  proof (cases rule: forItems_cases)
    case cancelled
    from cancelled(3) show ?thesis by (simp only: log_same)
  next
    case skipped
    from "3.IH"(1) [OF skipped(1,2,3) rest] show ?thesis .
  next
    case (dir_error e)
    from up dir_error(2,3) have ok: "requestOk E owner repo (owner, repo, item_path it)"
      unfolding requestOk_def by blast
    from "3.IH"(2) [OF dir_error(1,2,3,4)]
    obtain ps where ps: "fetched w' = fetched w @ ps"
      "\<forall>x\<in>set ps. x = (owner, repo, item_path it) \<or> requestOk E owner repo x" by blast
    from ps(2) ok have "\<forall>x\<in>set ps. requestOk E owner repo x" by auto
    with ps(1) show ?thesis by blast
  next
    case (dir_done subTree w1)
    from up dir_done(2,3) have ok: "requestOk E owner repo (owner, repo, item_path it)"
      unfolding requestOk_def by blast
    from "3.IH"(2) [OF dir_done(1,2,3,4)]
    obtain ps where ps: "fetched w1 = fetched w @ ps"
      "\<forall>x\<in>set ps. x = (owner, repo, item_path it) \<or> requestOk E owner repo x" by blast
    from ps(2) ok have ps': "\<forall>x\<in>set ps. requestOk E owner repo x" by auto
    from "3.IH"(3) [OF dir_done(1,2,3) dir_done(4) [symmetric] refl dir_done(5) rest]
    obtain qs where qs: "fetched w' = fetched w1 @ qs" "\<forall>x\<in>set qs. requestOk E owner repo x"
      by blast
    from log_extend [OF ps(1) qs(1) ps' qs(2)] show ?thesis .
  next
    case file_kept
    from "3.IH"(4) [OF file_kept(1,2,3,4,5) rest] show ?thesis .
  next
    case file_dropped
    from "3.IH"(5) [OF file_dropped(1,2,3,4,5) rest] show ?thesis .
  qed
qed

lemma progressLog_recordProgress:
  "progressLog (recordProgress aid depth maxDepth path w) =
     progressLog w @
       (case aid of None \<Rightarrow> []
        | Some i \<Rightarrow> if i \<noteq> [] \<and> 0 < depth then [(i, depth, progressOf depth maxDepth)] else [])"
  by (simp add: recordProgress_def updateProgress_def Let_def split: option.splits)

lemma recordProgress_log:
  "\<exists>ys. progressLog (recordProgress aid depth maxDepth path w) = progressLog w @ ys \<and>
        (\<forall>x\<in>set ys. writeOk aid maxDepth x)"
proof (cases aid)
  case None
  then show ?thesis by (simp add: progressLog_recordProgress)
next
  case (Some i)
  show ?thesis
  proof (cases "i \<noteq> [] \<and> 0 < depth")
    case True
    with Some show ?thesis
      by (intro exI [of _ "[(i, depth, progressOf depth maxDepth)]"])
         (simp add: progressLog_recordProgress writeOk_def)
  next
    case False
    with Some show ?thesis
      by (intro exI [of _ "[]"]) (simp add: progressLog_recordProgress)
  qed
qed

lemma crawl_progressLog:
  "buildFileTreeWithCancellation E owner repo path aid depth maxDepth w = (r, w') \<Longrightarrow>
     \<exists>ys. progressLog w' = progressLog w @ ys \<and> (\<forall>x\<in>set ys. writeOk aid maxDepth x)"
  "forItems E owner repo aid depth maxDepth items cs w = (rl, w') \<Longrightarrow>
     \<exists>ys. progressLog w' = progressLog w @ ys \<and> (\<forall>x\<in>set ys. writeOk aid maxDepth x)"
proof (induction E owner repo path aid depth maxDepth w and E owner repo aid depth maxDepth items cs w
       arbitrary: r w' and rl w' rule: buildFileTreeWithCancellation_forItems.induct)
  case (1 E owner repo path aid depth maxDepth w)
  from recordProgress_log [of aid depth maxDepth path w]
  obtain y0 where y0: "progressLog (recordProgress aid depth maxDepth path w) = progressLog w @ y0"
    "\<forall>x\<in>set y0. writeOk aid maxDepth x"
    by blast
  from "1.prems" show ?case
  proof (cases rule: build_cases)
    case cancelled
    from cancelled(3) show ?thesis by (simp only: log_same)
  next
    case truncated
    from truncated(4) show ?thesis by (simp only: recordProgress_log)
  next
    case (fetch_error e)
    from fetch_result [OF fetch_error(3)]
    have "progressLog w' = progressLog (recordProgress aid depth maxDepth path w)" by simp
    then show ?thesis by (simp only: recordProgress_log)
  next
    case (listed its w2 r2)
    from fetch_result [OF listed(3)]
    have f: "progressLog w2 = progressLog (recordProgress aid depth maxDepth path w)" by simp
    from "1.IH" [OF listed(1) refl listed(2) listed(3) [symmetric] refl listed(4)]
    obtain ys where ys: "progressLog w' = progressLog w2 @ ys" "\<forall>x\<in>set ys. writeOk aid maxDepth x"
      by blast
    from y0(1) f have "progressLog w2 = progressLog w @ y0" by simp
    from log_extend [OF this ys(1) y0(2) ys(2)] show ?thesis .
  qed
next
  case (2 E owner repo aid depth maxDepth cs w)
  from "2.prems"(1) have "w' = w" by simp
  then show ?case by (simp only: log_same)
next
  case (3 E owner repo aid depth maxDepth it rest cs w)
  from "3.prems"(1) show ?case
  proof (cases rule: forItems_cases)
    case cancelled
    from cancelled(3) show ?thesis by (simp only: log_same)
  next
    case skipped
    from "3.IH"(1) [OF skipped(1,2,3)] show ?thesis .
  next
    case (dir_error e)
    from "3.IH"(2) [OF dir_error(1,2,3,4)] show ?thesis .
  next
    case (dir_done subTree w1)
    from "3.IH"(2) [OF dir_done(1,2,3,4)]
    obtain ps where ps: "progressLog w1 = progressLog w @ ps" "\<forall>x\<in>set ps. writeOk aid maxDepth x"
      by blast
    from "3.IH"(3) [OF dir_done(1,2,3) dir_done(4) [symmetric] refl dir_done(5)]
    obtain qs where qs: "progressLog w' = progressLog w1 @ qs" "\<forall>x\<in>set qs. writeOk aid maxDepth x"
      by blast
    from log_extend [OF ps(1) qs(1) ps(2) qs(2)] show ?thesis .
  next
    case file_kept
    from "3.IH"(4) [OF file_kept(1,2,3,4,5)] show ?thesis .
  next
    case file_dropped
    from "3.IH"(5) [OF file_dropped(1,2,3,4,5)] show ?thesis .
  qed
qed


subsection \<open>What a returned tree contains\<close>

lemma crawl_below_root:
  assumes "buildFileTreeWithCancellation E owner repo path aid depth maxDepth w = (Inr t, w')"
  shows "\<not> is_file t" and "node_name t = treeName path repo"
    and "\<forall>n\<in>set (descendants t). nodeOk maxDepth n"
proof -
  note c = crawl_nodes(1) [OF assms]
  show "\<not> is_file t" using c by (cases "maxDepth < depth") auto
  show "node_name t = treeName path repo" using c by (cases "maxDepth < depth") auto
  show "\<forall>n\<in>set (descendants t). nodeOk maxDepth n"
  proof (cases "maxDepth < depth")
    case True
    with c show ?thesis by simp
  next
    case False
    with c obtain cs where t: "t = Folder (treeName path repo) None cs (Some depth) None None"
      and a: "allOk maxDepth cs" by auto
    from a have "\<forall>n\<in>set (descendants (Folder (treeName path repo) None cs (Some depth) None None)).
        nodeOk maxDepth n"
      by (rule allOk_descendants)
    with t show ?thesis by simp
  qed
qed


lemma sizeOk_iff: "sizeOk s = (\<exists>n. s = Some n \<and> 0 < n \<and> n < 1024 * 1024)"
  by (cases s) (auto simp: sizeOk_def sizeLimit_def)

lemma crawl_file_sizes:
  assumes "buildFileTreeWithCancellation E owner repo path aid depth maxDepth w = (Inr t, w')"
    and "n \<in> set (nodes t)" and "is_file n"
  shows "\<exists>s. file_size n = Some s \<and> 0 < s \<and> s < 1024 * 1024"
proof -
  from assms(2,3) crawl_below_root(1) [OF assms(1)] have "n \<in> set (descendants t)"
    by (auto simp: nodes_def)
  with crawl_below_root(3) [OF assms(1)] have "nodeOk maxDepth n" by simp
  with assms(3) have "sizeOk (file_size n)" by (simp add: nodeOk_def)
  then show ?thesis by (simp only: sizeOk_iff)
qed





subsection \<open>The children listed at the depth limit\<close>







subsection \<open>Progress values\<close>

lemma progressOf_spec:
  assumes "1 \<le> maxDepth" and "maxDepth \<le> 20"
  shows "progressOf depth maxDepth = specProgress depth maxDepth"
  using assms by (simp add: progressOf_code specProgress_code)

lemma progressOf_le_100: "progressOf depth maxDepth \<le> 100"
proof (cases "maxDepth = 0")
  case True
  then show ?thesis by (simp add: progressOf_def)
next
  case False
  have "round (min (fl (fl (real depth / real maxDepth) * 100)) 100) \<le> round (100::real)"
    by (rule round_mono) simp
  with False show ?thesis by (simp add: progressOf_def)
qed

lemma progressOf_mono:
  assumes "d1 \<le> d2"
  shows "progressOf d1 maxDepth \<le> progressOf d2 maxDepth"
proof (cases "maxDepth = 0")
  case True
  then show ?thesis by (simp add: progressOf_def)
next
  case False
  from assms have "real d1 / real maxDepth \<le> real d2 / real maxDepth"
    by (simp add: divide_right_mono)
  then have "fl (real d1 / real maxDepth) \<le> fl (real d2 / real maxDepth)" by (rule fl_mono)
  then have "fl (real d1 / real maxDepth) * 100 \<le> fl (real d2 / real maxDepth) * 100" by simp
  then have "fl (fl (real d1 / real maxDepth) * 100) \<le> fl (fl (real d2 / real maxDepth) * 100)"
    by (rule fl_mono)
  then have "min (fl (fl (real d1 / real maxDepth) * 100)) 100
      \<le> min (fl (fl (real d2 / real maxDepth) * 100)) 100"
    by (simp add: min_le_iff_disj)
  then have "round (min (fl (fl (real d1 / real maxDepth) * 100)) 100)
      \<le> round (min (fl (fl (real d2 / real maxDepth) * 100)) 100)"
    by (rule round_mono)
  with False show ?thesis by (simp add: progressOf_def)
qed

lemma stored_progress:
  assumes "i \<noteq> []" and "0 < depth"
  shows "map_of (activeAnalyses (recordProgress (Some i) depth maxDepth path w)) i =
     Some ((case map_of (activeAnalyses w) i of None \<Rightarrow> emptySession | Some s \<Rightarrow> s)
            \<lparr>progress := Some (progressOf depth maxDepth), currentDepth := Some depth,
              currentPath := Some path\<rparr>)"
  using assms by (simp add: recordProgress_def updateProgress_def Let_def update_conv')

subsection \<open>The routes and the session table\<close>

text \<open>
  \<^verbatim>\<open>/analyze\<close> never answers 499, removes the session when it answers 200, and leaves it
  in the table when the crawl fails. During a crawl no session disappears and no flag is
  reset; a crawl that returns a tree ends with its own flag unset when no listing is empty.
\<close>

lemma analyze_never_499:
  "fst (fst (analyze E uid now repoUrl maxDepthParam w)) \<noteq> 499"
  by (simp add: analyze_def Let_def sessionCancelled_def delete_conv' Repository_create_def
      split: option.splits prod.splits sum.splits)

lemma analyze_success_unregisters:
  assumes "analyze E uid now repoUrl maxDepthParam w = ((200, b), w')"
  shows "map_of (activeAnalyses w') (analysisIdOf uid now) = None"
  using assms
  by (auto simp: analyze_def Let_def sessionCancelled_def delete_conv' Repository_create_def
      split: option.splits prod.splits sum.splits if_splits)

lemma markCancelled_lookup:
  "map_of (markCancelled uid reg) i =
     (if prefix uid i then map_option (\<lambda>s. s\<lparr>cancelled := Some True\<rparr>) (map_of reg i)
      else map_of reg i)"
  by (induction reg) (auto simp: markCancelled_def)

lemma markCancelled_own_sessions:
  "map_of reg (analysisIdOf uid now) = Some s \<Longrightarrow>
   map_of (markCancelled uid reg) (analysisIdOf uid now) = Some (s\<lparr>cancelled := Some True\<rparr>)"
  by (simp add: markCancelled_lookup analysisIdOf_def)

lemma clampDepth_range: "1 \<le> clampDepth p \<and> clampDepth p \<le> 20"
  by (auto simp: clampDepth_def split: option.splits)


lemma registry_keys_update:
  "map_of reg j \<noteq> None \<Longrightarrow> map_of (AList.update i v reg) j \<noteq> None"
  by (simp add: update_conv')

lemma registry_keys_markCancelled:
  "map_of reg j \<noteq> None \<Longrightarrow> map_of (markCancelled uid reg) j \<noteq> None"
  by (simp add: markCancelled_lookup)

lemma registry_keys_recordProgress:
  "map_of (activeAnalyses w) j \<noteq> None \<Longrightarrow>
   map_of (activeAnalyses (recordProgress aid depth maxDepth path w)) j \<noteq> None"
  by (simp add: recordProgress_def updateProgress_def Let_def update_conv' split: option.splits)

lemma crawl_registry_invariant:
  assumes mark: "\<And>reg uid. Q reg \<Longrightarrow> Q (markCancelled uid reg)"
    and prog: "\<And>w aid depth maxDepth path.
                 Q (activeAnalyses w) \<Longrightarrow> Q (activeAnalyses (recordProgress aid depth maxDepth path w))"
  shows "buildFileTreeWithCancellation E owner repo path aid depth maxDepth w = (r, w') \<Longrightarrow>
           Q (activeAnalyses w) \<Longrightarrow> Q (activeAnalyses w')"
    and "forItems E owner repo aid depth maxDepth items cs w = (rl, w') \<Longrightarrow>
           Q (activeAnalyses w) \<Longrightarrow> Q (activeAnalyses w')"
proof (induction E owner repo path aid depth maxDepth w and E owner repo aid depth maxDepth items cs w
       arbitrary: r w' and rl w' rule: buildFileTreeWithCancellation_forItems.induct)
  case (1 E owner repo path aid depth maxDepth w)
  note k = prog [OF "1.prems"(2), of aid depth maxDepth path]
  have cancels: "Q (foldl (\<lambda>reg uid. markCancelled uid reg) reg uids)" if "Q reg" for reg uids
    using that by (induction uids arbitrary: reg) (simp_all add: mark)
  have f: "Q (activeAnalyses w2)"
    if "fetch E owner repo path (recordProgress aid depth maxDepth path w) = (x, w2)" for x w2
  proof -
    from that have "activeAnalyses w2 =
        foldl (\<lambda>reg uid. markCancelled uid reg)
          (activeAnalyses (recordProgress aid depth maxDepth path w))
          (cancelRequests E (length (fetched (recordProgress aid depth maxDepth path w))))"
      by (auto simp: fetch_def)
    with cancels [OF k] show ?thesis by simp
  qed
  from "1.prems"(1) show ?case
  proof (cases rule: build_cases)
    case cancelled
    with "1.prems"(2) show ?thesis by simp
  next
    case truncated
    with k show ?thesis by simp
  next
    case (fetch_error e)
    from f [OF fetch_error(3)] show ?thesis .
  next
    case (listed its w2 r2)
    from "1.IH" [OF listed(1) refl listed(2) listed(3) [symmetric] refl listed(4) f [OF listed(3)]]
    show ?thesis .
  qed
next
  case (2 E owner repo aid depth maxDepth cs w)
  then show ?case by simp
next
  case (3 E owner repo aid depth maxDepth it rest cs w)
  note k = "3.prems"(2)
  from "3.prems"(1) show ?case
  proof (cases rule: forItems_cases)
    case cancelled
    with k show ?thesis by simp
  next
    case skipped
    from "3.IH"(1) [OF skipped(1,2,3) k] show ?thesis .
  next
    case (dir_error e)
    from "3.IH"(2) [OF dir_error(1,2,3,4) k] show ?thesis .
  next
    case (dir_done subTree w1)
    from "3.IH"(3) [OF dir_done(1,2,3) dir_done(4) [symmetric] refl dir_done(5)
        "3.IH"(2) [OF dir_done(1,2,3,4) k]]
    show ?thesis .
  next
    case file_kept
    from "3.IH"(4) [OF file_kept(1,2,3,4,5) k] show ?thesis .
  next
    case file_dropped
    from "3.IH"(5) [OF file_dropped(1,2,3,4,5) k] show ?thesis .
  qed
qed

lemma crawl_keeps_sessions:
  assumes "buildFileTreeWithCancellation E owner repo path aid depth maxDepth w = (r, w')"
    and "map_of (activeAnalyses w) j \<noteq> None"
  shows "map_of (activeAnalyses w') j \<noteq> None"
  using crawl_registry_invariant(1) [of "\<lambda>reg. map_of reg j \<noteq> None", OF _ _ assms]
    registry_keys_markCancelled registry_keys_recordProgress
  by blast

lemma sessionCancelled_markCancelled:
  "sessionCancelled j reg \<Longrightarrow> sessionCancelled j (markCancelled uid reg)"
  by (auto simp: sessionCancelled_def markCancelled_lookup split: option.splits)

lemma sessionCancelled_recordProgress:
  "sessionCancelled j (activeAnalyses w) \<Longrightarrow>
   sessionCancelled j (activeAnalyses (recordProgress aid depth maxDepth path w))"
  by (auto simp: sessionCancelled_def recordProgress_def updateProgress_def Let_def update_conv'
      split: option.splits)

lemma crawl_flag_stays:
  assumes "buildFileTreeWithCancellation E owner repo path aid depth maxDepth w = (r, w')"
    and "sessionCancelled j (activeAnalyses w)"
  shows "sessionCancelled j (activeAnalyses w')"
  using crawl_registry_invariant(1) [of "sessionCancelled j", OF _ _ assms]
    sessionCancelled_markCancelled sessionCancelled_recordProgress
  by blast

lemma isCancelled_recordProgress:
  "isCancelled aid (activeAnalyses (recordProgress aid' depth maxDepth path w)) =
   isCancelled aid (activeAnalyses w)"
proof (cases aid')
  case None
  then show ?thesis by (simp add: recordProgress_def)
next
  case (Some i)
  show ?thesis
  proof (cases "i \<noteq> [] \<and> 0 < depth")
    case False
    with Some show ?thesis by (auto simp: recordProgress_def)
  next
    case True
    with Some show ?thesis
      by (cases aid)
         (auto simp: recordProgress_def updateProgress_def Let_def isCancelled_def
            sessionCancelled_def update_conv' emptySession_def split: option.splits)
  qed
qed

lemma crawl_tree_not_cancelled:
  "buildFileTreeWithCancellation E owner repo path aid depth maxDepth w = (Inr t, w') \<Longrightarrow>
     \<forall>p items. listing E owner repo p = Inr items \<longrightarrow> items \<noteq> [] \<Longrightarrow>
     \<not> isCancelled aid (activeAnalyses w')"
  "forItems E owner repo aid depth maxDepth items cs w = (Inr cs', w') \<Longrightarrow>
     \<forall>p items. listing E owner repo p = Inr items \<longrightarrow> items \<noteq> [] \<Longrightarrow>
     (items = [] \<longrightarrow> \<not> isCancelled aid (activeAnalyses w)) \<Longrightarrow>
     \<not> isCancelled aid (activeAnalyses w')"
proof (induction E owner repo path aid depth maxDepth w and E owner repo aid depth maxDepth items cs w
       arbitrary: t w' and cs' w' rule: buildFileTreeWithCancellation_forItems.induct)
  case (1 E owner repo path aid depth maxDepth w)
  from "1.prems"(1) show ?case
  proof (cases rule: build_cases)
    case cancelled
    then show ?thesis by simp
  next
    case truncated
    then show ?thesis by (simp add: isCancelled_recordProgress)
  next
    case (fetch_error e)
    then show ?thesis by simp
  next
    case (listed its w2 r2)
    from listed(5) obtain cs2 where r2: "r2 = Inr cs2" by (cases r2) simp_all
    from fetch_result [OF listed(3)] have "listing E owner repo path = Inr its" by simp
    with "1.prems"(2) have "its \<noteq> []" by blast
    then have v: "its = [] \<longrightarrow>  \<not> isCancelled aid (activeAnalyses w2)" by simp
    from "1.IH" [OF listed(1) refl listed(2) listed(3) [symmetric] refl listed(4) [unfolded r2]
        "1.prems"(2) v]
    show ?thesis .
  qed
next
  case (2 E owner repo aid depth maxDepth cs w)
  then show ?case by simp
next
  case (3 E owner repo aid depth maxDepth it rest cs w)
  note ne = "3.prems"(2)
  from "3.prems"(1) show ?case
  proof (cases rule: forItems_cases)
    case cancelled
    then show ?thesis by simp
  next
    case skipped
    from skipped(1) have "rest = [] \<longrightarrow> \<not> isCancelled aid (activeAnalyses w)" by simp
    from "3.IH"(1) [OF skipped(1,2,3) ne this] show ?thesis .
  next
    case (dir_error e)
    then show ?thesis by simp
  next
    case (dir_done subTree w1)
    from "3.IH"(2) [OF dir_done(1,2,3,4) ne]
    have "rest = [] \<longrightarrow> \<not> isCancelled aid (activeAnalyses w1)" by simp
    from "3.IH"(3) [OF dir_done(1,2,3) dir_done(4) [symmetric] refl dir_done(5) ne this]
    show ?thesis .
  next
    case file_kept
    from file_kept(1) have "rest = [] \<longrightarrow> \<not> isCancelled aid (activeAnalyses w)" by simp
    from "3.IH"(4) [OF file_kept(1,2,3,4,5) ne this] show ?thesis .
  next
    case file_dropped
    from file_dropped(1) have "rest = [] \<longrightarrow> \<not> isCancelled aid (activeAnalyses w)" by simp
    from "3.IH"(5) [OF file_dropped(1,2,3,4,5) ne this] show ?thesis .
  qed
qed


lemma crawl_error_keeps_saved:
  "buildFileTreeWithCancellation E owner repo path aid depth maxDepth w = (r, w') \<Longrightarrow>
     saved w' = saved w"
  "forItems E owner repo aid depth maxDepth items cs w = (rl, w') \<Longrightarrow> saved w' = saved w"
proof (induction E owner repo path aid depth maxDepth w and E owner repo aid depth maxDepth items cs w
       arbitrary: r w' and rl w' rule: buildFileTreeWithCancellation_forItems.induct)
  case (1 E owner repo path aid depth maxDepth w)
  have k: "saved (recordProgress aid depth maxDepth path w) = saved w"
    by (simp add: recordProgress_def updateProgress_def Let_def split: option.splits)
  from "1.prems"(1) show ?case
  proof (cases rule: build_cases)
    case cancelled
    then show ?thesis by simp
  next
    case truncated
    with k show ?thesis by simp
  next
    case (fetch_error e)
    from fetch_result [OF fetch_error(3)] k show ?thesis by simp
  next
    case (listed its w2 r2)
    from "1.IH" [OF listed(1) refl listed(2) listed(3) [symmetric] refl listed(4)]
      fetch_result [OF listed(3)] k
    show ?thesis by simp
  qed
next
  case (2 E owner repo aid depth maxDepth cs w)
  then show ?case by simp
next
  case (3 E owner repo aid depth maxDepth it rest cs w)
  from "3.prems"(1) show ?case
  proof (cases rule: forItems_cases)
    case cancelled
    then show ?thesis by simp
  next
    case skipped
    from "3.IH"(1) [OF skipped(1,2,3)] show ?thesis .
  next
    case (dir_error e)
    from "3.IH"(2) [OF dir_error(1,2,3,4)] show ?thesis .
  next
    case (dir_done subTree w1)
    from "3.IH"(3) [OF dir_done(1,2,3) dir_done(4) [symmetric] refl dir_done(5)]
        "3.IH"(2) [OF dir_done(1,2,3,4)]
    show ?thesis by simp
  next
    case file_kept
    from "3.IH"(4) [OF file_kept(1,2,3,4,5)] show ?thesis .
  next
    case file_dropped
    from "3.IH"(5) [OF file_dropped(1,2,3,4,5)] show ?thesis .
  qed
qed

lemma analyze_crawl_error_leaks_session:
  assumes "parseGitHubUrl url = Some (owner, repo)" and "url \<noteq> []"
    and "buildFileTreeWithCancellation E owner repo [] (Some (analysisIdOf uid now)) 0
           (clampDepth maxDepthParam)
           (w\<lparr>activeAnalyses := AList.update (analysisIdOf uid now) newSession (activeAnalyses w)\<rparr>)
         = (Inl e, w')"
  shows "analyze E uid now (Some url) maxDepthParam w =
           ((500, Failure ''Failed to analyze repository'' e), w')"
    and "map_of (activeAnalyses w') (analysisIdOf uid now) \<noteq> None"
    and "saved w' = saved w"
proof -
  show "analyze E uid now (Some url) maxDepthParam w =
           ((500, Failure ''Failed to analyze repository'' e), w')"
    using assms by (simp add: analyze_def Let_def)
  have "map_of (activeAnalyses (w\<lparr>activeAnalyses :=
      AList.update (analysisIdOf uid now) newSession (activeAnalyses w)\<rparr>)) (analysisIdOf uid now) \<noteq> None"
    by (simp add: update_conv')
  from crawl_keeps_sessions [OF assms(3) this]
  show "map_of (activeAnalyses w') (analysisIdOf uid now) \<noteq> None" .
  from crawl_error_keeps_saved(1) [OF assms(3)] show "saved w' = saved w" by simp
qed

lemma analyze_success_tree:
  assumes "analyze E uid now repoUrl maxDepthParam w = ((200, Analyzed m owner repo t d), w')"
  shows "\<exists>w1 w2. buildFileTreeWithCancellation E owner repo [] (Some (analysisIdOf uid now)) 0 d w1
            = (Inr t, w2) \<and> 1 \<le> d \<and> d \<le> 20"
  using assms clampDepth_range [of maxDepthParam]
  by (auto simp: analyze_def Let_def Repository_create_def
      split: option.splits prod.splits sum.splits if_splits)

lemma analyze_success_not_cancelled:
  assumes "analyze E uid now repoUrl maxDepthParam w = ((200, Analyzed m owner repo t d), w')"
    and "\<forall>p items. listing E owner repo p = Inr items \<longrightarrow> items \<noteq> []"
  shows "\<exists>w1 w2. buildFileTreeWithCancellation E owner repo [] (Some (analysisIdOf uid now)) 0 d w1
            = (Inr t, w2) \<and>
          \<not> isCancelled (Some (analysisIdOf uid now)) (activeAnalyses w2)"
proof -
  from analyze_success_tree [OF assms(1)] obtain w1 w2 where
    b: "buildFileTreeWithCancellation E owner repo [] (Some (analysisIdOf uid now)) 0 d w1
          = (Inr t, w2)" by blast
  from crawl_tree_not_cancelled(1) [OF b assms(2)] b show ?thesis by blast
qed

subsection \<open>The session holds the latest write\<close>

lemma writeFrom_weaken: "writeFrom i m (Suc lo) x \<Longrightarrow> writeFrom i m lo x"
  by (auto simp: writeFrom_def)

lemma synced_entry:
  assumes "i \<noteq> []" and "0 < depth"
  shows "synced i maxDepth (recordProgress (Some i) depth maxDepth path w)"
  using assms by (simp add: synced_def recordProgress_def updateProgress_def Let_def update_conv')

lemma synced_recordProgress:
  assumes "i \<noteq> []" and "synced i maxDepth w"
  shows "synced i maxDepth (recordProgress (Some i) depth maxDepth path w)"
proof (cases "0 < depth")
  case True
  with assms(1) show ?thesis by (rule synced_entry)
next
  case False
  with assms(2) show ?thesis by (simp add: recordProgress_def)
qed

lemma session_fields_markCancelled:
  assumes "\<exists>s. map_of reg i = Some s \<and> currentDepth s = Some k \<and> progress s = Some p"
  shows "\<exists>s. map_of (markCancelled uid reg) i = Some s \<and> currentDepth s = Some k \<and>
             progress s = Some p"
  using assms by (auto simp: markCancelled_lookup)

lemma session_fields_cancels:
  assumes "\<exists>s. map_of reg i = Some s \<and> currentDepth s = Some k \<and> progress s = Some p"
  shows "\<exists>s. map_of (foldl (\<lambda>reg uid. markCancelled uid reg) reg uids) i = Some s \<and>
             currentDepth s = Some k \<and> progress s = Some p"
  using assms
proof (induction uids arbitrary: reg)
  case Nil
  then show ?case by simp
next
  case (Cons u uids)
  from Cons.IH [OF session_fields_markCancelled [OF Cons.prems, of u]] show ?case by simp
qed

lemma synced_fetch:
  assumes "fetch E owner repo path w = (x, w2)" and "synced i maxDepth w"
  shows "synced i maxDepth w2"
proof -
  from assms(1) have l: "progressLog w2 = progressLog w"
    and a: "activeAnalyses w2 = foldl (\<lambda>reg uid. markCancelled uid reg) (activeAnalyses w)
             (cancelRequests E (length (fetched w)))"
    by (auto simp: fetch_def)
  obtain j k p where e: "last (progressLog w) = (j, k, p)" by (cases "last (progressLog w)")
  from assms(2) e have n: "progressLog w \<noteq> []" and j: "j = i" and p: "p = progressOf k maxDepth"
    and s: "\<exists>s. map_of (activeAnalyses w) i = Some s \<and> currentDepth s = Some k \<and>
                progress s = Some p"
    by (auto simp: synced_def)
  from session_fields_cancels [OF s, of "cancelRequests E (length (fetched w))"] a
  have "\<exists>s. map_of (activeAnalyses w2) i = Some s \<and> currentDepth s = Some k \<and>
            progress s = Some p"
    by simp
  with l n e j p show ?thesis by (simp add: synced_def)
qed

lemma crawl_synced:
  "buildFileTreeWithCancellation E owner repo path aid depth maxDepth w = (r, w') \<Longrightarrow>
     aid = Some i \<Longrightarrow> i \<noteq> [] \<Longrightarrow> synced i maxDepth w \<Longrightarrow> synced i maxDepth w'"
  "forItems E owner repo aid depth maxDepth items cs w = (rl, w') \<Longrightarrow>
     aid = Some i \<Longrightarrow> i \<noteq> [] \<Longrightarrow> synced i maxDepth w \<Longrightarrow> synced i maxDepth w'"
proof (induction E owner repo path aid depth maxDepth w and E owner repo aid depth maxDepth items cs w
       arbitrary: r w' and rl w' rule: buildFileTreeWithCancellation_forItems.induct)
  case (1 E owner repo path aid depth maxDepth w)
  note a = "1.prems"(2) and i = "1.prems"(3)
  have k: "synced i maxDepth (recordProgress aid depth maxDepth path w)"
    unfolding a using i "1.prems"(4) by (rule synced_recordProgress)
  from "1.prems"(1) show ?case
  proof (cases rule: build_cases)
    case cancelled
    with "1.prems"(4) show ?thesis by simp
  next
    case truncated
    with k show ?thesis by simp
  next
    case (fetch_error e)
    from synced_fetch [OF fetch_error(3) k] show ?thesis .
  next
    case (listed its w2 r2)
    from "1.IH" [OF listed(1) refl listed(2) listed(3) [symmetric] refl listed(4) a i
        synced_fetch [OF listed(3) k]]
    show ?thesis .
  qed
next
  case (2 E owner repo aid depth maxDepth cs w)
  then show ?case by simp
next
  case (3 E owner repo aid depth maxDepth it rest cs w)
  note a = "3.prems"(2) and i = "3.prems"(3) and k = "3.prems"(4)
  from "3.prems"(1) show ?case
  proof (cases rule: forItems_cases)
    case cancelled
    with k show ?thesis by simp
  next
    case skipped
    from "3.IH"(1) [OF skipped(1,2,3) a i k] show ?thesis .
  next
    case (dir_error e)
    from "3.IH"(2) [OF dir_error(1,2,3,4) a i k] show ?thesis .
  next
    case (dir_done subTree w1)
    from "3.IH"(3) [OF dir_done(1,2,3) dir_done(4) [symmetric] refl dir_done(5) a i
        "3.IH"(2) [OF dir_done(1,2,3,4) a i k]]
    show ?thesis .
  next
    case file_kept
    from "3.IH"(4) [OF file_kept(1,2,3,4,5) a i k] show ?thesis .
  next
    case file_dropped
    from "3.IH"(5) [OF file_dropped(1,2,3,4,5) a i k] show ?thesis .
  qed
qed

text \<open>
  The writes of a call are made at its own depth or deeper, those of its loop deeper; and once
  something was written the session holds the latest write.
\<close>

lemma writes_same:
  "\<exists>ys. progressLog w = progressLog w @ ys \<and> (\<forall>x\<in>set ys. P x) \<and> (ys \<noteq> [] \<longrightarrow> Q)"
  by (rule exI [of _ "[]"]) simp

lemma writes_extend:
  assumes "l1 = l0 @ ps" and "l2 = l1 @ qs" and "\<forall>x\<in>set ps. P x" and "\<forall>x\<in>set qs. P x"
    and "ps @ qs \<noteq> [] \<Longrightarrow> Q"
  shows "\<exists>ys. l2 = l0 @ ys \<and> (\<forall>x\<in>set ys. P x) \<and> (ys \<noteq> [] \<longrightarrow> Q)"
  using assms by (intro exI [of _ "ps @ qs"]) auto

lemma crawl_writes:
  "buildFileTreeWithCancellation E owner repo path aid depth maxDepth w = (r, w') \<Longrightarrow>
     aid = Some i \<Longrightarrow> i \<noteq> [] \<Longrightarrow>
     \<exists>ys. progressLog w' = progressLog w @ ys \<and> (\<forall>x\<in>set ys. writeFrom i maxDepth depth x) \<and>
          (ys \<noteq> [] \<longrightarrow> synced i maxDepth w')"
  "forItems E owner repo aid depth maxDepth items cs w = (rl, w') \<Longrightarrow>
     aid = Some i \<Longrightarrow> i \<noteq> [] \<Longrightarrow>
     \<exists>ys. progressLog w' = progressLog w @ ys \<and>
          (\<forall>x\<in>set ys. writeFrom i maxDepth (Suc depth) x) \<and>
          (ys \<noteq> [] \<longrightarrow> synced i maxDepth w')"
proof (induction E owner repo path aid depth maxDepth w and E owner repo aid depth maxDepth items cs w
       arbitrary: r w' and rl w' rule: buildFileTreeWithCancellation_forItems.induct)
  case (1 E owner repo path aid depth maxDepth w)
  note a = "1.prems"(2) and i = "1.prems"(3)
  let ?w1 = "recordProgress aid depth maxDepth path w"
  define y0 where "y0 = (if 0 < depth then [(i, depth, progressOf depth maxDepth)] else [])"
  have y0: "progressLog ?w1 = progressLog w @ y0"
    using a i by (simp add: progressLog_recordProgress y0_def)
  have y0': "\<forall>x\<in>set y0. writeFrom i maxDepth depth x"
    by (simp add: y0_def writeFrom_def)
  have s1: "synced i maxDepth ?w1" if "y0 \<noteq> []"
  proof -
    from that have "0 < depth" by (simp add: y0_def split: if_splits)
    with i show ?thesis unfolding a by (rule synced_entry)
  qed
  from "1.prems"(1) show ?case
  proof (cases rule: build_cases)
    case cancelled
    from cancelled(3) show ?thesis by (simp only: writes_same)
  next
    case truncated
    with y0 y0' s1 show ?thesis by auto
  next
    case (fetch_error e)
    from fetch_result [OF fetch_error(3)] have "progressLog w' = progressLog ?w1" by simp
    with y0 y0' synced_fetch [OF fetch_error(3) s1] show ?thesis by auto
  next
    case (listed its w2 r2)
    from fetch_result [OF listed(3)] have f: "progressLog w2 = progressLog ?w1" by simp
    from "1.IH" [OF listed(1) refl listed(2) listed(3) [symmetric] refl listed(4) a i]
    obtain ys where ys: "progressLog w' = progressLog w2 @ ys"
      "\<forall>x\<in>set ys. writeFrom i maxDepth (Suc depth) x" "ys \<noteq> [] \<longrightarrow> synced i maxDepth w'"
      by blast
    from ys(2) have ys': "\<forall>x\<in>set ys. writeFrom i maxDepth depth x"
      by (blast intro: writeFrom_weaken)
    from y0 f have l: "progressLog w2 = progressLog w @ y0" by simp
    have "synced i maxDepth w'" if "y0 @ ys \<noteq> []"
    proof (cases "ys = []")
      case False
      with ys(3) show ?thesis by simp
    next
      case True
      with that have "y0 \<noteq> []" by simp
      from crawl_synced(2) [OF listed(4) a i synced_fetch [OF listed(3) s1 [OF this]]]
      show ?thesis .
    qed
    with writes_extend [OF l ys(1) y0' ys'] show ?thesis by blast
  qed
next
  case (2 E owner repo aid depth maxDepth cs w)
  from "2.prems"(1) have "w' = w" by simp
  then show ?case by (simp only: writes_same)
next
  case (3 E owner repo aid depth maxDepth it rest cs w)
  note a = "3.prems"(2) and i = "3.prems"(3)
  from "3.prems"(1) show ?case
  proof (cases rule: forItems_cases)
    case cancelled
    from cancelled(3) show ?thesis by (simp only: writes_same)
  next
    case skipped
    from "3.IH"(1) [OF skipped(1,2,3) a i] show ?thesis .
  next
    case (dir_error e)
    from "3.IH"(2) [OF dir_error(1,2,3,4) a i] show ?thesis by simp
  next
    case (dir_done subTree w1)
    from "3.IH"(2) [OF dir_done(1,2,3,4) a i]
    obtain ps where ps: "progressLog w1 = progressLog w @ ps"
      "\<forall>x\<in>set ps. writeFrom i maxDepth (Suc depth) x" "ps \<noteq> [] \<longrightarrow> synced i maxDepth w1"
      by auto
    from "3.IH"(3) [OF dir_done(1,2,3) dir_done(4) [symmetric] refl dir_done(5) a i]
    obtain qs where qs: "progressLog w' = progressLog w1 @ qs"
      "\<forall>x\<in>set qs. writeFrom i maxDepth (Suc depth) x" "qs \<noteq> [] \<longrightarrow> synced i maxDepth w'"
      by blast
    have "synced i maxDepth w'" if "ps @ qs \<noteq> []"
    proof (cases "qs = []")
      case False
      with qs(3) show ?thesis by simp
    next
      case True
      with that ps(3) have "synced i maxDepth w1" by simp
      from crawl_synced(2) [OF dir_done(5) a i this] show ?thesis .
    qed
    with writes_extend [OF ps(1) qs(1) ps(2) qs(2)] show ?thesis by blast
  next
    case file_kept
    from "3.IH"(4) [OF file_kept(1,2,3,4,5) a i] show ?thesis .
  next
    case file_dropped
    from "3.IH"(5) [OF file_dropped(1,2,3,4,5) a i] show ?thesis .
  qed
qed

text \<open>
  A call at a depth of at least 1 that passes its cancellation check writes first, for its
  own depth; what follows is written by the calls of its loop, one level deeper or more.
\<close>

lemma call_writes_first:
  assumes "buildFileTreeWithCancellation E owner repo path (Some i) depth maxDepth w = (r, w')"
    and "i \<noteq> []" and "0 < depth" and "\<not> isCancelled (Some i) (activeAnalyses w)"
  shows "\<exists>ys. progressLog w' = progressLog w @ (i, depth, progressOf depth maxDepth) # ys \<and>
              (\<forall>x\<in>set ys. writeFrom i maxDepth (Suc depth) x)"
proof -
  let ?w1 = "recordProgress (Some i) depth maxDepth path w"
  have y0: "progressLog ?w1 = progressLog w @ [(i, depth, progressOf depth maxDepth)]"
    using assms(2,3) by (simp add: progressLog_recordProgress)
  from assms(1) show ?thesis
  proof (cases rule: build_cases)
    case cancelled
    with assms(4) show ?thesis by simp
  next
    case truncated
    with y0 show ?thesis by simp
  next
    case (fetch_error e)
    from fetch_result [OF fetch_error(3)] y0 show ?thesis by simp
  next
    case (listed its w2 r2)
    from fetch_result [OF listed(3)] y0
    have "progressLog w2 = progressLog w @ [(i, depth, progressOf depth maxDepth)]" by simp
    moreover from crawl_writes(2) [OF listed(4) refl assms(2)]
    obtain ys where "progressLog w' = progressLog w2 @ ys"
      "\<forall>x\<in>set ys. writeFrom i maxDepth (Suc depth) x"
      by blast
    ultimately show ?thesis by simp
  qed
qed

text \<open>What the call goes on with after the update at its entry.\<close>

lemma call_continues:
  assumes "buildFileTreeWithCancellation E owner repo path aid depth maxDepth w = (r, w')"
    and "\<not> isCancelled aid (activeAnalyses w)"
  shows "if maxDepth < depth then w' = recordProgress aid depth maxDepth path w
         else \<exists>x w2. fetch E owner repo path (recordProgress aid depth maxDepth path w) = (x, w2) \<and>
                (case x of Inl e \<Rightarrow> w' = w2
                 | Inr its \<Rightarrow> \<exists>r2. forItems E owner repo aid depth maxDepth its [] w2 = (r2, w'))"
  using assms(1)
proof (cases rule: build_cases)
  case cancelled
  with assms(2) show ?thesis by simp
next
  case truncated
  then show ?thesis by simp
next
  case (fetch_error e)
  then show ?thesis by simp
next
  case (listed its w2 r2)
  then show ?thesis by auto
qed

subsection \<open>The example crawls\<close>

lemmas skip_eval = shouldSkip_def skipPatterns_def matches_pattern_def line_terminator_def

lemmas crawl_eval =
  buildFileTreeWithCancellation.simps forItems.simps Let_def fetch_def recordProgress_def
  updateProgress_def isCancelled_def sessionCancelled_def progressOf_code markCancelled_def
  treeName_def truncatedMessage_def dec.simps digit_def sizeOk_def sizeLimit_def
  folderChild_def fileChild_def wrapError_def cancelledMessage_def emptySession_def

lemmas route_eval =
  analyze_def clampDepth_def parseGitHubUrl.simps match_at_def analysisIdOf_def
  Repository_create_def cancel_def

lemmas example_eval =
  quiet_def cancelDuringRoot_def notFound_def distEnv_def distListing_def distTree_def
  started_def w0_def newSession_def widgetsListing_def fileItem_def dirItem_def
  widgetsTree_def readmeNode_def truncatedA_def

lemma crawl_widgets_tree:
  "fst (buildFileTreeWithCancellation quiet ''acme'' ''widgets'' [] (Some ''7-1000'') 0 1 started)
     = Inr widgetsTree"
  by (simp add: crawl_eval example_eval skip_eval)

lemma crawl_widgets_log:
  "progressLog (snd (buildFileTreeWithCancellation quiet ''acme'' ''widgets'' []
        (Some ''7-1000'') 0 2 started)) =
     [(''7-1000'', 1, 50), (''7-1000'', 2, 100), (''7-1000'', 1, 50)]"
  by (simp add: crawl_eval example_eval skip_eval)

lemma crawl_widgets_fetched:
  "fetched (snd (buildFileTreeWithCancellation quiet ''acme'' ''widgets'' []
        (Some ''7-1000'') 0 1 started)) =
     [(''acme'', ''widgets'', []), (''acme'', ''widgets'', ''src''), (''acme'', ''widgets'', ''docs'')]"
  by (simp add: crawl_eval example_eval skip_eval)

lemma crawl_dist_fetched:
  "fetched (snd (buildFileTreeWithCancellation distEnv ''acme'' ''dist'' []
        (Some ''7-1000'') 0 1 started)) = [(''acme'', ''dist'', [])]"
  by (simp add: crawl_eval example_eval skip_eval)

lemma crawl_dist_tree:
  "fst (buildFileTreeWithCancellation distEnv ''acme'' ''dist'' [] (Some ''7-1000'') 0 1 started)
     = Inr distTree"
  by (simp add: crawl_eval example_eval skip_eval)

lemma crawl_src_log:
  "progressLog (snd (buildFileTreeWithCancellation quiet ''acme'' ''widgets'' ''src''
        (Some ''7-1000'') 1 2 started)) = [(''7-1000'', 1, 50), (''7-1000'', 2, 100)]"
  by (simp add: crawl_eval example_eval skip_eval)

section \<open>The claims\<close>

text \<open>
  C1. Claimed: when the session of a crawl is cancelled while the crawl is in progress,
  \<^verbatim>\<open>/analyze\<close> answers with a distinct cancelled outcome, not with a tree or a generic
  error, and \<^verbatim>\<open>Repository.create\<close> is not invoked. The code: caller 7 cancels while the
  first directory listing is in flight; the crawler throws at its next check, the route's
  \<^verbatim>\<open>catch\<close> answers 500 with the generic failure message, and the session stays in the
  table with its flag set. The answer 499 that the route has for a cancelled analysis is
  never given (\<open>analyze_never_499\<close>). Nothing is stored on this path; a tree is stored
  only when the crawl ends with the flag unset, as long as the upstream lists no directory
  as empty (\<open>analyze_success_not_cancelled\<close>, \<open>crawl_flag_stays\<close>).
\<close>

theorem C1_cancelled_crawl_answers_500:
  "fst (analyze cancelDuringRoot ''7'' 1000 (Some ''https://github.com/acme/widgets'') (Some 1) w0)
     = (500, Failure ''Failed to analyze repository''
               ''GitHub API error: Analysis cancelled by user'') \<and>
   sessionCancelled ''7-1000''
     (activeAnalyses (snd (analyze cancelDuringRoot ''7'' 1000
        (Some ''https://github.com/acme/widgets'') (Some 1) w0))) \<and>
   saved (snd (analyze cancelDuringRoot ''7'' 1000
        (Some ''https://github.com/acme/widgets'') (Some 1) w0)) = []"
  by (simp add: route_eval crawl_eval example_eval skip_eval)




text \<open>
  C3. Claimed: the depth of every child node, file or directory, is its parent's depth plus
  one. The code: a folder child is pushed with \<^verbatim>\<open>depth + 1\<close>, a file child with
  \<^verbatim>\<open>depth\<close>; the file \<^verbatim>\<open>readme.txt\<close> in the root of depth 0 has depth 0.
\<close>

theorem C3_file_child_keeps_parent_depth:
  "fst (buildFileTreeWithCancellation quiet ''acme'' ''widgets'' [] (Some ''7-1000'') 0 1 started)
     = Inr widgetsTree \<and>
   node_depth widgetsTree = Some 0 \<and> readmeNode \<in> set (node_children widgetsTree) \<and>
   node_depth readmeNode = Some 0"
  using crawl_widgets_tree by (simp add: example_eval)

text \<open>
  C4, as claimed: the progress values written during one crawl never decrease. The code:
  with depth limit 2 the crawl writes 50 on entering \<^verbatim>\<open>src\<close>, 100 on entering
  \<^verbatim>\<open>src/a\<close> and 50 again on entering \<^verbatim>\<open>docs\<close>.
\<close>

theorem C4_progress_drops_between_siblings:
  "map (\<lambda>(i, k, p). p)
     (progressLog (snd (buildFileTreeWithCancellation quiet ''acme'' ''widgets'' []
        (Some ''7-1000'') 0 2 started))) = [50, 100, 50] \<and>
   \<not> sorted [50, 100, 50 :: nat]"
  by (simp add: crawl_widgets_log)

text \<open>
  C4, amended: every progress value written during a crawl is at most 100, and of two
  writes of one crawl the one made at the smaller or equal depth carries the smaller or
  equal value, whichever is written first.
\<close>

theorem C4_progress_monotone_in_depth:
  assumes "buildFileTreeWithCancellation E owner repo path aid depth maxDepth w = (r, w')"
  shows "\<exists>ys. progressLog w' = progressLog w @ ys \<and>
           (\<forall>(i1, k1, p1)\<in>set ys. p1 \<le> 100 \<and>
              (\<forall>(i2, k2, p2)\<in>set ys. k1 \<le> k2 \<longrightarrow> p1 \<le> p2))"
proof -
  from crawl_progressLog(1) [OF assms] obtain ys where
    ys: "progressLog w' = progressLog w @ ys" "\<forall>x\<in>set ys. writeOk aid maxDepth x" by blast
  have "\<forall>(i1, k1, p1)\<in>set ys. p1 \<le> 100 \<and> (\<forall>(i2, k2, p2)\<in>set ys. k1 \<le> k2 \<longrightarrow> p1 \<le> p2)"
  proof (intro ballI, clarify, intro conjI ballI)
    fix i1 k1 p1 assume a: "(i1, k1, p1) \<in> set ys"
    with ys(2) have p1: "p1 = progressOf k1 maxDepth" by (auto simp: writeOk_def)
    then show "p1 \<le> 100" by (simp add: progressOf_le_100)
    fix x assume "x \<in> set ys"
    with ys(2) have "writeOk aid maxDepth x" by simp
    then show "case x of (i2, k2, p2) \<Rightarrow> k1 \<le> k2 \<longrightarrow> p1 \<le> p2"
      using p1 by (auto simp: writeOk_def progressOf_mono)
  qed
  with ys(1) show ?thesis by blast
qed

theorem C4_progress_monotone_in_depth_witness:
  "progressLog (snd (buildFileTreeWithCancellation quiet ''acme'' ''widgets'' []
        (Some ''7-1000'') 0 2 started)) =
     progressLog started @ [(''7-1000'', 1, 50), (''7-1000'', 2, 100), (''7-1000'', 1, 50)] \<and>
   (1::nat) \<le> 2 \<and> (50::nat) \<le> 100 \<and> (100::nat) \<le> 100 \<and>
   progressOf 1 2 = 50 \<and> progressOf 2 2 = 100"
  using C4_progress_monotone_in_depth [where E = quiet and owner = "''acme''"
      and repo = "''widgets''" and path = "[]" and aid = "Some ''7-1000''" and depth = 0
      and maxDepth = 2 and w = started, OF surjective_pairing]
    crawl_widgets_log
  by (simp add: started_def w0_def progressOf_code)

text \<open>
  C5. Claimed: on every exit path of \<^verbatim>\<open>/analyze\<close>, also on cancellation and on a fetch
  error, the session entry of the crawl is removed from \<^verbatim>\<open>activeAnalyses\<close>. The code: the
  \<^verbatim>\<open>delete\<close> follows the crawl inside the \<^verbatim>\<open>try\<close>, so an error thrown by the crawl skips
  it; after a failed first request the session is still in the table. Whenever the crawl
  fails the session stays (\<open>analyze_crawl_error_leaks_session\<close>); only the successful path
  removes it (\<open>analyze_success_unregisters\<close>).
\<close>

theorem C5_session_left_after_fetch_error:
  "analyze notFound ''7'' 1000 (Some ''https://github.com/acme/widgets'') None w0 =
     ((500, Failure ''Failed to analyze repository''
              ''GitHub API error: Request failed with status code 404''),
      w0\<lparr>activeAnalyses := [(''7-1000'', newSession)],
         fetched := [(''acme'', ''widgets'', [])]\<rparr>)"
  by (simp add: route_eval crawl_eval example_eval skip_eval)

text \<open>
  C6, as claimed: no node named like a skipped entry appears anywhere in the returned
  tree. The code: the root node is named after the repository and is not filtered; a
  repository \<^verbatim>\<open>dist\<close> with a directory \<^verbatim>\<open>dist\<close> returns a root named \<^verbatim>\<open>dist\<close>.
\<close>

theorem C6_root_named_like_skipped_entry:
  "listing distEnv ''acme'' ''dist'' [] =
     Inr [dirItem ''dist'' ''dist'', fileItem ''index.js'' ''index.js'' 40] \<and>
   shouldSkip (item_name (dirItem ''dist'' ''dist'')) \<and>
   fst (buildFileTreeWithCancellation distEnv ''acme'' ''dist'' [] (Some ''7-1000'') 0 1 started)
     = Inr distTree \<and>
   distTree \<in> set (nodes distTree) \<and>
   node_name distTree = item_name (dirItem ''dist'' ''dist'')"
  using crawl_dist_tree by (simp add: example_eval nodes_def skip_eval)

text \<open>
  C6, amended: for every upstream entry whose name matches a skip pattern (as the code
  tests it, which includes the exact names and the suffixes: \<open>exact_name_skipped\<close>,
  \<open>wildcard_suffix_skipped\<close>), no node below the root has that name; and when the
  upstream gives the entry's path to no entry of another name and the crawl does not start
  at that path, no directory-listing request is issued for it during the crawl, whatever
  the crawl's outcome.
\<close>

theorem C6_skipped_entries_absent_amended:
  assumes "buildFileTreeWithCancellation E owner repo path aid depth maxDepth w = (r, w')"
    and "upstreamEntry E owner repo it" and "shouldSkip (item_name it)"
    and "\<forall>it'. upstreamEntry E owner repo it' \<and> item_path it' = item_path it
           \<longrightarrow> item_name it' = item_name it"
    and "item_path it \<noteq> path"
  shows "(\<forall>t. r = Inr t \<longrightarrow> (\<forall>n\<in>set (descendants t). node_name n \<noteq> item_name it)) \<and>
         (owner, repo, item_path it) \<notin> set (drop (length (fetched w)) (fetched w'))"
proof (intro conjI allI impI ballI)
  fix t n assume "r = Inr t" "n \<in> set (descendants t)"
  with crawl_below_root(3) [of E owner repo path aid depth maxDepth w t w'] assms(1)
  have "nodeOk maxDepth n" by simp
  then have "\<not> shouldSkip (node_name n)" by (simp add: nodeOk_def)
  with assms(3) show "node_name n \<noteq> item_name it" by auto
next
  from crawl_fetched(1) [OF assms(1)] obtain ps where
    ps: "fetched w' = fetched w @ ps"
    "\<forall>x\<in>set ps. x = (owner, repo, path) \<or> requestOk E owner repo x" by blast
  have "(owner, repo, item_path it) \<notin> set ps"
  proof
    assume "(owner, repo, item_path it) \<in> set ps"
    with ps(2) assms(5) have "requestOk E owner repo (owner, repo, item_path it)" by auto
    then obtain it' where "upstreamEntry E owner repo it'" "\<not> shouldSkip (item_name it')"
      "item_path it' = item_path it" by (auto simp: requestOk_def)
    with assms(3,4) show False by auto
  qed
  with ps(1) show "(owner, repo, item_path it) \<notin> set (drop (length (fetched w)) (fetched w'))"
    by simp
qed

theorem C6_skipped_entries_absent_amended_witness:
  "upstreamEntry distEnv ''acme'' ''dist'' (dirItem ''dist'' ''dist'') \<and>
   shouldSkip ''dist'' \<and>
   fst (buildFileTreeWithCancellation distEnv ''acme'' ''dist'' [] (Some ''7-1000'') 0 1 started)
     = Inr distTree \<and>
   ''dist'' \<notin> set (map node_name (descendants distTree)) \<and>
   (''acme'', ''dist'', ''dist'') \<notin>
     set (fetched (snd (buildFileTreeWithCancellation distEnv ''acme'' ''dist'' []
            (Some ''7-1000'') 0 1 started)))"
proof -
  have up: "upstreamEntry distEnv ''acme'' ''dist'' (dirItem ''dist'' ''dist'')"
    unfolding upstreamEntry_def
    by (rule exI [of _ "[]"]) (simp add: distEnv_def distListing_def)
  have sk: "shouldSkip (item_name (dirItem ''dist'' ''dist''))"
    by (simp add: dirItem_def skip_eval)
  have "item_path it' = ''dist'' \<longrightarrow> item_name it' = ''dist''"
    if "distListing ''acme'' ''dist'' p = Inr items" "it' \<in> set items" for p items it'
    using that by (auto simp: distListing_def fileItem_def dirItem_def split: if_splits)
  then have un: "\<forall>it'. upstreamEntry distEnv ''acme'' ''dist'' it' \<and>
       item_path it' = item_path (dirItem ''dist'' ''dist'')
         \<longrightarrow> item_name it' = item_name (dirItem ''dist'' ''dist'')"
    by (auto simp: upstreamEntry_def distEnv_def dirItem_def)
  have ne: "item_path (dirItem ''dist'' ''dist'') \<noteq> []" by (simp add: dirItem_def)
  from C6_skipped_entries_absent_amended [where E = distEnv and owner = "''acme''"
      and repo = "''dist''" and path = "[]" and aid = "Some ''7-1000''" and depth = 0
      and maxDepth = 1 and w = started and it = "dirItem ''dist'' ''dist''",
      OF surjective_pairing up sk un ne]
    up sk crawl_dist_tree crawl_dist_fetched
  show ?thesis
    by (simp add: dirItem_def started_def w0_def distTree_def)
qed

text \<open>
  C7. Every file node of a returned tree has a size below 1 MiB (1024 * 1024 bytes), and
  the node of a file whose reported size is at or above that ceiling is not in the tree.
\<close>

theorem C7_file_nodes_below_size_limit:
  assumes "buildFileTreeWithCancellation E owner repo path aid depth maxDepth w = (Inr t, w')"
  shows "(\<forall>n\<in>set (nodes t). is_file n \<longrightarrow> (\<exists>s. file_size n = Some s \<and> s < 1024 * 1024)) \<and>
         (\<forall>it d s. item_size it = Some s \<and> 1024 * 1024 \<le> s \<longrightarrow> fileChild it d \<notin> set (nodes t))"
proof (intro conjI ballI allI impI)
  fix n assume "n \<in> set (nodes t)" "is_file n"
  from crawl_file_sizes [OF assms this] show "\<exists>s. file_size n = Some s \<and> s < 1024 * 1024"
    by blast
next
  fix it :: item and d s assume a: "item_size it = Some s \<and> 1024 * 1024 \<le> s"
  show "fileChild it d \<notin> set (nodes t)"
  proof
    assume "fileChild it d \<in> set (nodes t)"
    from crawl_file_sizes [OF assms this] a show False by (simp add: fileChild_def)
  qed
qed

theorem C7_file_nodes_below_size_limit_witness:
  "fst (buildFileTreeWithCancellation quiet ''acme'' ''widgets'' [] (Some ''7-1000'') 0 1 started)
     = Inr widgetsTree \<and>
   readmeNode \<in> set (nodes widgetsTree) \<and> is_file readmeNode \<and>
   file_size readmeNode = Some 10 \<and> (10::nat) < 1024 * 1024 \<and>
   item_size (fileItem ''big.bin'' ''big.bin'' 2000000) = Some 2000000 \<and>
   (1024 * 1024 :: nat) \<le> 2000000 \<and>
   fileChild (fileItem ''big.bin'' ''big.bin'' 2000000) 0 \<notin> set (nodes widgetsTree)"
proof -
  have e: "buildFileTreeWithCancellation quiet ''acme'' ''widgets'' [] (Some ''7-1000'') 0 1 started
      = (Inr widgetsTree,
         snd (buildFileTreeWithCancellation quiet ''acme'' ''widgets'' [] (Some ''7-1000'') 0 1
                started))"
    using crawl_widgets_tree by (simp add: prod_eq_iff)
  from C7_file_nodes_below_size_limit [OF e] crawl_widgets_tree show ?thesis
    by (simp add: widgetsTree_def truncatedA_def readmeNode_def nodes_def fileItem_def
        fileChild_def)
qed

text \<open>
  C8. Claimed: \<^verbatim>\<open>/analyze/cancel\<close> sets the flag on every live session of the requesting
  caller and leaves the sessions of every other caller unchanged. The code selects the
  sessions whose id starts with the caller's id, without the separator: the request of
  caller 1 also sets the flag on the session \<^verbatim>\<open>12-2000\<close> of caller 12. The caller's own
  sessions are all marked (\<open>markCancelled_own_sessions\<close>), and a session whose id does not
  start with the caller's id is unchanged (\<open>markCancelled_lookup\<close>).
\<close>

theorem C8_cancel_marks_other_callers_session:
  "cancel ''1'' (w0\<lparr>activeAnalyses := [(analysisIdOf ''12'' 2000, newSession)]\<rparr>) =
     ((200, Message ''Analysis cancellation requested''),
      w0\<lparr>activeAnalyses := [(''12-2000'', newSession\<lparr>cancelled := Some True\<rparr>)]\<rparr>)"
  by (simp add: route_eval crawl_eval example_eval)

text \<open>
  C9. The depth limit is one that \<^verbatim>\<open>/analyze\<close> passes, 1 to 20 (\<open>clampDepth_range\<close>), and
  the call has a session id. Every progress value a call of the crawler and the calls below
  it write is \<open>min(100, round(100 * k / maxDepth))\<close> for the depth \<open>k\<close> of the call that writes
  it, which is at least 1 and at least the depth of the outer call; and once something was
  written, the session holds, when the call ends, the depth and the value of the last write.
  A call at depth at least 1 that passes its cancellation check (the loop makes a recursive
  call only right after the same check) writes first: the first value is that of its own
  depth, the later ones come from deeper calls; the session table after the update at its
  entry holds that value and depth in the session, and the call goes on from that table: it
  returns it if the depth is beyond the limit, and requests the listing and runs the loop
  from it otherwise.
\<close>

theorem C9_progress_formula:
  assumes "i \<noteq> []" and "1 \<le> maxDepth" and "maxDepth \<le> 20"
    and "buildFileTreeWithCancellation E owner repo path (Some i) depth maxDepth w = (r, w')"
  shows "\<exists>ys. progressLog w' = progressLog w @ ys \<and>
          (\<forall>(j, k, p)\<in>set ys. j = i \<and> 1 \<le> k \<and> depth \<le> k \<and> p = specProgress k maxDepth) \<and>
          (ys \<noteq> [] \<longrightarrow>
             (\<exists>s k. last ys = (i, k, specProgress k maxDepth) \<and>
                map_of (activeAnalyses w') i = Some s \<and> currentDepth s = Some k \<and>
                progress s = Some (specProgress k maxDepth))) \<and>
          (1 \<le> depth \<and> \<not> isCancelled (Some i) (activeAnalyses w) \<longrightarrow>
             ys \<noteq> [] \<and> hd ys = (i, depth, specProgress depth maxDepth) \<and>
             (\<forall>(j, k, p)\<in>set (tl ys). depth < k) \<and>
             map_of (activeAnalyses (recordProgress (Some i) depth maxDepth path w)) i =
               Some ((case map_of (activeAnalyses w) i of None \<Rightarrow> emptySession | Some s \<Rightarrow> s)
                      \<lparr>progress := Some (specProgress depth maxDepth),
                        currentDepth := Some depth, currentPath := Some path\<rparr>) \<and>
             (if maxDepth < depth then w' = recordProgress (Some i) depth maxDepth path w
              else \<exists>x w2.
                     fetch E owner repo path (recordProgress (Some i) depth maxDepth path w)
                       = (x, w2) \<and>
                     (case x of
                        Inl e \<Rightarrow> w' = w2
                      | Inr its \<Rightarrow>
                          \<exists>r2. forItems E owner repo (Some i) depth maxDepth its [] w2
                                 = (r2, w'))))"
proof -
  note sp = progressOf_spec [OF assms(2,3)]
  from crawl_writes(1) [OF assms(4) refl assms(1)] obtain ys where
    l: "progressLog w' = progressLog w @ ys"
    and f: "\<forall>x\<in>set ys. writeFrom i maxDepth depth x"
    and s: "ys \<noteq> [] \<longrightarrow> synced i maxDepth w'"
    by blast
  from f have 1: "\<forall>(j, k, p)\<in>set ys. j = i \<and> 1 \<le> k \<and> depth \<le> k \<and> p = specProgress k maxDepth"
    by (auto simp: writeFrom_def sp)
  have 2: "\<exists>s k. last ys = (i, k, specProgress k maxDepth) \<and>
             map_of (activeAnalyses w') i = Some s \<and> currentDepth s = Some k \<and>
             progress s = Some (specProgress k maxDepth)" if n: "ys \<noteq> []"
  proof -
    obtain j k p where e: "last (progressLog w') = (j, k, p)" by (cases "last (progressLog w')")
    from n s have "synced i maxDepth w'" by simp
    with e have "j = i" "p = progressOf k maxDepth"
      "\<exists>s. map_of (activeAnalyses w') i = Some s \<and> currentDepth s = Some k \<and> progress s = Some p"
      by (auto simp: synced_def)
    moreover from l n e have "last ys = (j, k, p)" by simp
    ultimately show ?thesis by (auto simp: sp)
  qed
  have 3: "ys \<noteq> [] \<and> hd ys = (i, depth, specProgress depth maxDepth) \<and>
           (\<forall>(j, k, p)\<in>set (tl ys). depth < k)"
    if d: "1 \<le> depth" and c: "\<not> isCancelled (Some i) (activeAnalyses w)"
  proof -
    from d have d': "0 < depth" by simp
    from call_writes_first [OF assms(4,1) d' c] obtain zs where
      z: "progressLog w' = progressLog w @ (i, depth, progressOf depth maxDepth) # zs"
      and g: "\<forall>x\<in>set zs. writeFrom i maxDepth (Suc depth) x"
      by blast
    from l z have "ys = (i, depth, progressOf depth maxDepth) # zs" by simp
    with g show ?thesis by (auto simp: writeFrom_def sp)
  qed
  have 4: "map_of (activeAnalyses (recordProgress (Some i) depth maxDepth path w)) i =
     Some ((case map_of (activeAnalyses w) i of None \<Rightarrow> emptySession | Some s \<Rightarrow> s)
            \<lparr>progress := Some (specProgress depth maxDepth),
              currentDepth := Some depth, currentPath := Some path\<rparr>)" if d: "1 \<le> depth"
  proof -
    from d have "0 < depth" by simp
    from stored_progress [OF assms(1) this, of maxDepth path w] show ?thesis by (simp add: sp)
  qed
  note 5 = call_continues [OF assms(4)]
  from l 1 2 3 4 5 show ?thesis by blast
qed

theorem C9_progress_formula_witness:
  "''7-1000'' \<noteq> [] \<and> (1::nat) \<le> 2 \<and> (2::nat) \<le> 20 \<and> (1::nat) \<le> 1 \<and>
   \<not> isCancelled (Some ''7-1000'') (activeAnalyses started) \<and>
   specProgress 1 2 = 50 \<and> specProgress 2 2 = 100 \<and>
   progressLog (snd (buildFileTreeWithCancellation quiet ''acme'' ''widgets'' ''src''
        (Some ''7-1000'') 1 2 started)) =
     progressLog started @ [(''7-1000'', 1, specProgress 1 2), (''7-1000'', 2, specProgress 2 2)] \<and>
   map_option progress
     (map_of (activeAnalyses (recordProgress (Some ''7-1000'') 1 2 ''src'' started)) ''7-1000'')
     = Some (Some (specProgress 1 2)) \<and>
   map_option currentDepth
     (map_of (activeAnalyses (snd (buildFileTreeWithCancellation quiet ''acme'' ''widgets'' ''src''
        (Some ''7-1000'') 1 2 started))) ''7-1000'') = Some (Some 2) \<and>
   map_option progress
     (map_of (activeAnalyses (snd (buildFileTreeWithCancellation quiet ''acme'' ''widgets'' ''src''
        (Some ''7-1000'') 1 2 started))) ''7-1000'') = Some (Some (specProgress 2 2))"
proof -
  let ?w' = "snd (buildFileTreeWithCancellation quiet ''acme'' ''widgets'' ''src''
        (Some ''7-1000'') 1 2 started)"
  have i: "''7-1000'' \<noteq> []" by simp
  have m1: "(1::nat) \<le> 2" and m2: "(2::nat) \<le> 20" and d: "(1::nat) \<le> 1" by simp_all
  have c: "\<not> isCancelled (Some ''7-1000'') (activeAnalyses started)"
    by (simp add: isCancelled_def sessionCancelled_def started_def w0_def newSession_def)
  have v: "specProgress 1 2 = 50" "specProgress 2 2 = 100"
    by (simp_all add: specProgress_code)
  have e: "buildFileTreeWithCancellation quiet ''acme'' ''widgets'' ''src'' (Some ''7-1000'') 1 2
             started
      = (fst (buildFileTreeWithCancellation quiet ''acme'' ''widgets'' ''src'' (Some ''7-1000'')
               1 2 started), ?w')"
    by simp
  have l0: "progressLog started = []" by (simp add: started_def w0_def)
  from C9_progress_formula [OF i m1 m2 e] d c obtain ys where
    l: "progressLog ?w' = progressLog started @ ys"
    and s: "ys \<noteq> [] \<longrightarrow>
             (\<exists>s k. last ys = (''7-1000'', k, specProgress k 2) \<and>
                map_of (activeAnalyses ?w') ''7-1000'' = Some s \<and> currentDepth s = Some k \<and>
                progress s = Some (specProgress k 2))"
    and h: "map_of (activeAnalyses (recordProgress (Some ''7-1000'') 1 2 ''src'' started)) ''7-1000''
       = Some ((case map_of (activeAnalyses started) ''7-1000'' of
                  None \<Rightarrow> emptySession | Some s \<Rightarrow> s)
               \<lparr>progress := Some (specProgress 1 2), currentDepth := Some 1,
                 currentPath := Some ''src''\<rparr>)"
    by blast
  from l l0 crawl_src_log have ys: "ys = [(''7-1000'', 1, 50), (''7-1000'', 2, 100)]" by simp
  with s obtain s' k where
    k: "(''7-1000'', 2, 100) = (''7-1000'', k, specProgress k 2)"
    and s': "map_of (activeAnalyses ?w') ''7-1000'' = Some s'" "currentDepth s' = Some k"
      "progress s' = Some (specProgress k 2)"
    by auto
  from k have k2: "k = 2" by simp
  from h have p1: "map_option progress
     (map_of (activeAnalyses (recordProgress (Some ''7-1000'') 1 2 ''src'' started)) ''7-1000'')
     = Some (Some (specProgress 1 2))"
    by simp
  from s' k2 have p2: "map_option currentDepth (map_of (activeAnalyses ?w') ''7-1000'')
       = Some (Some 2)"
    "map_option progress (map_of (activeAnalyses ?w') ''7-1000'') = Some (Some (specProgress 2 2))"
    by simp_all
  from l ys v have l': "progressLog ?w' =
     progressLog started @ [(''7-1000'', 1, specProgress 1 2), (''7-1000'', 2, specProgress 2 2)]"
    by simp
  from i m1 m2 d c v l' p1 p2 show ?thesis by (intro conjI)
qed

text \<open>
  C10. A file whose reported size is 0 or absent is omitted from the returned tree: the
  size test needs a truthy size, although 0 is below the 1 MiB ceiling.
\<close>

theorem C10_zero_size_files_omitted:
  assumes "buildFileTreeWithCancellation E owner repo path aid depth maxDepth w = (Inr t, w')"
    and "item_size it = None \<or> item_size it = Some 0"
  shows "fileChild it d \<notin> set (nodes t) \<and> \<not> sizeOk (item_size it) \<and> 0 < sizeLimit"
proof (intro conjI)
  show "fileChild it d \<notin> set (nodes t)"
  proof
    assume "fileChild it d \<in> set (nodes t)"
    from crawl_file_sizes [OF assms(1) this] assms(2) show False by (auto simp: fileChild_def)
  qed
  from assms(2) show "\<not> sizeOk (item_size it)" by (auto simp: sizeOk_def)
  show "0 < sizeLimit" by (simp add: sizeLimit_def)
qed

theorem C10_zero_size_files_omitted_witness:
  "item_size (fileItem ''empty.txt'' ''empty.txt'' 0) = Some 0 \<and>
   fst (buildFileTreeWithCancellation quiet ''acme'' ''widgets'' [] (Some ''7-1000'') 0 1 started)
     = Inr widgetsTree \<and>
   fileChild (fileItem ''empty.txt'' ''empty.txt'' 0) 0 \<notin> set (nodes widgetsTree) \<and>
   (0::nat) < sizeLimit"
proof -
  have e: "buildFileTreeWithCancellation quiet ''acme'' ''widgets'' [] (Some ''7-1000'') 0 1 started
      = (Inr widgetsTree,
         snd (buildFileTreeWithCancellation quiet ''acme'' ''widgets'' [] (Some ''7-1000'') 0 1
                started))"
    using crawl_widgets_tree by (simp add: prod_eq_iff)
  have z: "item_size (fileItem ''empty.txt'' ''empty.txt'' 0) = None \<or>
           item_size (fileItem ''empty.txt'' ''empty.txt'' 0) = Some 0"
    by (simp add: fileItem_def)
  from C10_zero_size_files_omitted [OF e z, of 0] crawl_widgets_tree show ?thesis
    by (simp add: fileItem_def)
qed

end
